theory Spec2Isabelle
  imports Main "HOL-Library.Word" "HOL-Library.Multiset"
begin

unbundle bit_operations_syntax

section \<open>Data model\<close>

type_synonym u8 = "8 word"
type_synonym u32 = "32 word"

text \<open>
  The flags of \<open>main\<close> are passed around as an \<open>int8_t\<close> and only ever tested
  bitwise.
\<close>

definition FLAG_FG :: "8 word" where "FLAG_FG = 1"
definition FLAG_BG :: "8 word" where "FLAG_BG = 2"
definition FLAG_MODE_256 :: "8 word" where "FLAG_MODE_256 = 4"
definition FLAG_24BIT :: "8 word" where "FLAG_24BIT = 8"
definition FLAG_NOOPT :: "8 word" where "FLAG_NOOPT = 16"
definition FLAG_TELETEXT :: "8 word" where "FLAG_TELETEXT = 32"

definition COLOR_STEPS :: "int list" where
  "COLOR_STEPS = [0, 0x5f, 0x87, 0xaf, 0xd7, 0xff]"

definition GRAYSCALE_STEPS :: "int list" where
  "GRAYSCALE_STEPS =
    [0x08, 0x12, 0x1c, 0x26, 0x30, 0x3a, 0x44, 0x4e, 0x58, 0x62, 0x6c, 0x76,
     0x80, 0x8a, 0x94, 0x9e, 0xa8, 0xb2, 0xbc, 0xc6, 0xd0, 0xda, 0xe4, 0xee]"

text \<open>
  \<open>BITMAPS\<close>: the interleaved array of 4x8 bitmaps and code points, in the order of
  the source, with the two end markers \<open>0, 0\<close> and \<open>0, 1\<close>.
\<close>

definition BITMAPS :: "u32 list" where
  "BITMAPS =
    [
     0x00000000, 0x00a0, 0x0000000f, 0x2581, 0x000000ff, 0x2582,
     0x00000fff, 0x2583, 0x0000ffff, 0x2584, 0x000fffff, 0x2585,
     0x00ffffff, 0x2586, 0x0fffffff, 0x2587, 0xeeeeeeee, 0x258a,
     0xcccccccc, 0x258c, 0x88888888, 0x258e, 0x0000cccc, 0x2596,
     0x00003333, 0x2597, 0xcccc0000, 0x2598, 0xcccc3333, 0x259a,
     0x33330000, 0x259d, 0x000ff000, 0x2501, 0x66666666, 0x2503,
     0x00077666, 0x250f, 0x000ee666, 0x2513, 0x66677000, 0x2517,
     0x666ee000, 0x251b, 0x66677666, 0x2523, 0x666ee666, 0x252b,
     0x000ff666, 0x2533, 0x666ff000, 0x253b, 0x666ff666, 0x254b,
     0x000cc000, 0x2578, 0x00066000, 0x2579, 0x00033000, 0x257a,
     0x00066000, 0x257b, 0x06600660, 0x254f, 0x000f0000, 0x2500,
     0x0000f000, 0x2500, 0x44444444, 0x2502, 0x22222222, 0x2502,
     0x000e0000, 0x2574, 0x0000e000, 0x2574, 0x44440000, 0x2575,
     0x22220000, 0x2575, 0x00030000, 0x2576, 0x00003000, 0x2576,
     0x00004444, 0x2577, 0x00002222, 0x2577, 0x44444444, 0x23a2,
     0x22222222, 0x23a5, 0x0f000000, 0x23ba, 0x00f00000, 0x23bb,
     0x00000f00, 0x23bc, 0x000000f0, 0x23bd, 0x00066000, 0x25aa,
     0x00000000, 0x0000, 0xccc00000, 0xfb00, 0x33300000, 0xfb01,
     0xfff00000, 0xfb02, 0x000cc000, 0xfb03, 0xccccc000, 0xfb04,
     0x333cc000, 0xfb05, 0xfffcc000, 0xfb06, 0x00033000, 0xfb07,
     0xccc33000, 0xfb08, 0x33333000, 0xfb09, 0xfff33000, 0xfb0a,
     0x000ff000, 0xfb0b, 0xcccff000, 0xfb0c, 0x333ff000, 0xfb0d,
     0xfffff000, 0xfb0e, 0x00000ccc, 0xfb0f, 0xccc00ccc, 0xfb10,
     0x33300ccc, 0xfb11, 0xfff00ccc, 0xfb12, 0x000ccccc, 0xfb13,
     0x333ccccc, 0xfb14, 0xfffccccc, 0xfb15, 0x00033ccc, 0xfb16,
     0xccc33ccc, 0xfb17, 0x33333ccc, 0xfb18, 0xfff33ccc, 0xfb19,
     0x000ffccc, 0xfb1a, 0xcccffccc, 0xfb1b, 0x333ffccc, 0xfb1c,
     0xfffffccc, 0xfb1d, 0x00000333, 0xfb1e, 0xccc00333, 0xfb1f,
     0x33300333, 0x1b20, 0xfff00333, 0x1b21, 0x000cc333, 0x1b22,
     0xccccc333, 0x1b23, 0x333cc333, 0x1b24, 0xfffcc333, 0x1b25,
     0x00033333, 0x1b26, 0xccc33333, 0x1b27, 0xfff33333, 0x1b28,
     0x000ff333, 0x1b29, 0xcccff333, 0x1b2a, 0x333ff333, 0x1b2b,
     0xfffff333, 0x1b2c, 0x00000fff, 0x1b2d, 0xccc00fff, 0x1b2e,
     0x33300fff, 0x1b2f, 0xfff00fff, 0x1b30, 0x000ccfff, 0x1b31,
     0xcccccfff, 0x1b32, 0x333ccfff, 0x1b33, 0xfffccfff, 0x1b34,
     0x00033fff, 0x1b35, 0xccc33fff, 0x1b36, 0x33333fff, 0x1b37,
     0xfff33fff, 0x1b38, 0x000fffff, 0x1b39, 0xcccfffff, 0x1b3a,
     0x333fffff, 0x1b3b, 0x00000000, 0x0001
]"

text \<open>
  \<open>image(x, y, 0, c)\<close> of a \<open>CImg<unsigned char>\<close>: the value of channel \<open>c\<close> of
  the pixel at \<open>(x, y)\<close>. The accessor checks no bounds; \<open>emitImage\<close> only asks for
  blocks that lie inside the image.
\<close>

type_synonym image = "nat \<Rightarrow> nat \<Rightarrow> nat \<Rightarrow> u8"

record CharData =
  fgColor :: "int list"
  bgColor :: "int list"
  codePoint :: int

section \<open>The glyph search of \<open>findCharData\<close>\<close>

text \<open>\<open>std::bitset<32>(w).count()\<close>: the number of bits set in \<open>w\<close>.\<close>

definition popcount :: "u32 \<Rightarrow> int" where
  "popcount w = (\<Sum>n\<leftarrow>[0..<32]. if bit w n then 1 else 0)"

text \<open>The four variables the search loop updates.\<close>

record search_state =
  best_diff :: int
  best_pattern :: u32
  codepoint :: int
  inverted :: bool

text \<open>
  One round of the inner loop over \<open>j\<close>: \<open>pattern\<close> is compared with \<open>bits\<close>;
  \<open>bm\<close> is \<open>BITMAPS[i]\<close> and \<open>cp\<close> is \<open>BITMAPS[i + 1]\<close>.
\<close>

definition compare_pattern :: "u32 \<Rightarrow> u32 \<Rightarrow> u32 \<Rightarrow> u32 \<Rightarrow> search_state \<Rightarrow> search_state" where
  "compare_pattern bits bm cp pattern s =
    (let diff = popcount (pattern XOR bits) in
     if diff < best_diff s
     then \<lparr>best_diff = diff, best_pattern = bm, codepoint = uint cp,
           inverted = (bm \<noteq> pattern)\<rparr>
     else s)"

text \<open>The inner loop: first the pattern itself, then its complement.\<close>

definition match_entry :: "u32 \<Rightarrow> u32 \<Rightarrow> u32 \<Rightarrow> search_state \<Rightarrow> search_state" where
  "match_entry bits bm cp s =
    compare_pattern bits bm cp (NOT bm) (compare_pattern bits bm cp bm s)"

text \<open>
  The outer loop \<open>for (i = 0; BITMAPS[i + 1] != end_marker; i += 2)\<close>, on the part
  of the array from index \<open>i\<close> on. Reading past the end of the array is undefined
  behaviour in the source and \<open>None\<close> here.
\<close>

fun scan_bitmaps :: "u32 list \<Rightarrow> u32 \<Rightarrow> u32 \<Rightarrow> search_state \<Rightarrow> search_state option" where
  "scan_bitmaps (bm # cp # rest) end_marker bits s =
    (if cp = end_marker then Some s
     else if cp < 32 then scan_bitmaps rest end_marker bits s
     else scan_bitmaps rest end_marker bits (match_entry bits bm cp s))"
| "scan_bitmaps _ end_marker bits s = None"

definition initial_best :: search_state where
  "initial_best = \<lparr>best_diff = 8, best_pattern = 0x0000ffff, codepoint = 0x2584,
                    inverted = False\<rparr>"

definition end_marker_of :: "8 word \<Rightarrow> u32" where
  "end_marker_of flags = (if flags AND FLAG_TELETEXT \<noteq> 0 then 1 else 0)"

definition find_glyph :: "u32 \<Rightarrow> 8 word \<Rightarrow> search_state option" where
  "find_glyph bits flags = scan_bitmaps BITMAPS (end_marker_of flags) bits initial_best"


section \<open>\<open>createCharData\<close>\<close>

text \<open>
  Division of \<open>int\<close>s in C++ truncates towards zero.
\<close>

definition c_div :: "int \<Rightarrow> int \<Rightarrow> int" where
  "c_div a b = sgn a * sgn b * (\<bar>a\<bar> div \<bar>b\<bar>)"

text \<open>
  The nested loops \<open>for y < 8\<close>, \<open>for x < 4\<close> visit the offsets \<open>(x, y)\<close> of the
  block in this order.
\<close>

definition block_coords :: "(nat \<times> nat) list" where
  "block_coords = concat (map (\<lambda>y. map (\<lambda>x. (x, y)) [0..<4]) [0..<8])"

text \<open>
  The state of the pixel loop of \<open>createCharData\<close>: the two colour accumulators
  (\<open>result.fgColor\<close> and \<open>result.bgColor\<close>), the two counters and the running
  \<open>mask\<close>.
\<close>

record avg_state =
  fg_acc :: "int list"
  bg_acc :: "int list"
  fg_count :: int
  bg_count :: int
  mask :: u32

text \<open>\<open>for (i < 3) avg[i] += image(px, py, 0, i)\<close>\<close>

definition add_pixel :: "image \<Rightarrow> nat \<Rightarrow> nat \<Rightarrow> int list \<Rightarrow> int list" where
  "add_pixel img px py avg =
    fold (\<lambda>i a. a[i := a ! i + uint (img px py i)]) [0..<3] avg"

definition accumulate_pixel ::
  "image \<Rightarrow> nat \<Rightarrow> nat \<Rightarrow> u32 \<Rightarrow> nat \<times> nat \<Rightarrow> avg_state \<Rightarrow> avg_state" where
  "accumulate_pixel img x0 y0 pattern xy s =
    (case xy of (x, y) \<Rightarrow>
      let s' = (if pattern AND mask s \<noteq> 0
                then s\<lparr>fg_acc := add_pixel img (x0 + x) (y0 + y) (fg_acc s),
                       fg_count := fg_count s + 1\<rparr>
                else s\<lparr>bg_acc := add_pixel img (x0 + x) (y0 + y) (bg_acc s),
                       bg_count := bg_count s + 1\<rparr>)
      in s'\<lparr>mask := drop_bit 1 (mask s')\<rparr>)"

text \<open>One round of the averaging loop, for channel \<open>i\<close>.\<close>

definition average_channel :: "nat \<Rightarrow> avg_state \<Rightarrow> avg_state" where
  "average_channel i s =
    (let s1 = (if bg_count s \<noteq> 0
               then s\<lparr>bg_acc := (bg_acc s)[i := c_div (bg_acc s ! i) (bg_count s)]\<rparr>
               else s)
     in if fg_count s1 \<noteq> 0
        then s1\<lparr>fg_acc := (fg_acc s1)[i := c_div (fg_acc s1 ! i) (fg_count s1)]\<rparr>
        else s1)"

definition createCharData :: "image \<Rightarrow> nat \<Rightarrow> nat \<Rightarrow> int \<Rightarrow> u32 \<Rightarrow> CharData" where
  "createCharData img x0 y0 cp pattern =
    (let s0 = \<lparr>fg_acc = [0, 0, 0], bg_acc = [0, 0, 0], fg_count = 0, bg_count = 0,
               mask = 0x80000000\<rparr>;
         s1 = fold (accumulate_pixel img x0 y0 pattern) block_coords s0;
         s2 = fold average_channel [0..<3] s1
     in \<lparr>fgColor = fg_acc s2, bgColor = bg_acc s2, codePoint = cp\<rparr>)"

section \<open>\<open>findCharData\<close>: analysis of a block\<close>

text \<open>
  \<open>std::map<long, int> count_per_color\<close> is kept as its sequence of (key, value)
  pairs in ascending key order, the order in which the source iterates over it.
  \<open>count_per_color[color]++\<close> creates a missing key with value 0 first.
\<close>

fun map_increment :: "int \<Rightarrow> (int \<times> int) list \<Rightarrow> (int \<times> int) list" where
  "map_increment k [] = [(k, 1)]"
| "map_increment k ((k', v) # m) =
    (if k < k' then (k, 1) # (k', v) # m
     else if k = k' then (k', v + 1) # m
     else (k', v) # map_increment k m)"

text \<open>
  \<open>std::multimap<int, long>::insert\<close>: the pairs are kept in ascending key order,
  and a pair whose key is already present goes after the pairs with that key.
\<close>

fun multimap_insert :: "int \<times> int \<Rightarrow> (int \<times> int) list \<Rightarrow> (int \<times> int) list" where
  "multimap_insert e [] = [e]"
| "multimap_insert e (e' # m) =
    (if fst e < fst e' then e # e' # m else e' # multimap_insert e m)"

record scan_state =
  min_ch :: "int list"
  max_ch :: "int list"
  count_per_color :: "(int \<times> int) list"

text \<open>The innermost loop of the first scan, for channel \<open>i\<close> of one pixel.\<close>

definition scan_channel ::
  "image \<Rightarrow> nat \<Rightarrow> nat \<Rightarrow> nat \<Rightarrow> int list \<times> int list \<times> int \<Rightarrow> int list \<times> int list \<times> int" where
  "scan_channel img px py i st =
    (case st of (mn, mx, color) \<Rightarrow>
      let d = uint (img px py i)
      in (mn[i := min (mn ! i) d], mx[i := max (mx ! i) d], push_bit 8 color OR d))"

definition scan_pixel :: "image \<Rightarrow> nat \<Rightarrow> nat \<Rightarrow> nat \<times> nat \<Rightarrow> scan_state \<Rightarrow> scan_state" where
  "scan_pixel img x0 y0 xy s =
    (case xy of (x, y) \<Rightarrow>
      case fold (scan_channel img (x0 + x) (y0 + y)) [0..<3] (min_ch s, max_ch s, 0) of
        (mn, mx, color) \<Rightarrow>
          \<lparr>min_ch = mn, max_ch = mx,
           count_per_color = map_increment color (count_per_color s)\<rparr>)"

definition scan_block :: "image \<Rightarrow> nat \<Rightarrow> nat \<Rightarrow> scan_state" where
  "scan_block img x0 y0 =
    fold (scan_pixel img x0 y0) block_coords
      \<lparr>min_ch = [255, 255, 255], max_ch = [0, 0, 0], count_per_color = []\<rparr>"

definition color_per_count_of :: "(int \<times> int) list \<Rightarrow> (int \<times> int) list" where
  "color_per_count_of m = fold (\<lambda>(color, n) cpc. multimap_insert (n, color) cpc) m []"

text \<open>
  What is read through the reverse iterator: \<open>count2\<close> and the two colours.
  Dereferencing \<open>rbegin()\<close> of an empty multimap is undefined behaviour, \<open>None\<close> here.
\<close>

record top_colors =
  count2 :: int
  max_count_color_1 :: int
  max_count_color_2 :: int

definition top_two :: "(int \<times> int) list \<Rightarrow> top_colors option" where
  "top_two color_per_count =
    (case rev color_per_count of
       [] \<Rightarrow> None
     | (n1, c1) # rest \<Rightarrow>
         (case rest of
            [] \<Rightarrow> Some \<lparr>count2 = n1, max_count_color_1 = c1, max_count_color_2 = c1\<rparr>
          | (n2, c2) # _ \<Rightarrow>
              Some \<lparr>count2 = n1 + n2, max_count_color_1 = c1, max_count_color_2 = c2\<rparr>))"

definition is_direct :: "top_colors \<Rightarrow> bool" where
  "is_direct t \<longleftrightarrow> count2 t > c_div (8 * 4) 2"

text \<open>\<open>(color >> shift) & 255\<close> with \<open>shift = 16 - 8 * i\<close>\<close>

definition channel_of :: "int \<Rightarrow> nat \<Rightarrow> int" where
  "channel_of color i = drop_bit (16 - 8 * i) color AND 255"

definition distance_step ::
  "image \<Rightarrow> nat \<Rightarrow> nat \<Rightarrow> int \<Rightarrow> int \<Rightarrow> nat \<Rightarrow> int \<times> int \<Rightarrow> int \<times> int" where
  "distance_step img px py color1 color2 i dd =
    (case dd of (d1, d2) \<Rightarrow>
      let c1 = channel_of color1 i; c2 = channel_of color2 i; c = uint (img px py i)
      in (d1 + (c1 - c) * (c1 - c), d2 + (c2 - c) * (c2 - c)))"

definition direct_pixel ::
  "image \<Rightarrow> nat \<Rightarrow> nat \<Rightarrow> int \<Rightarrow> int \<Rightarrow> nat \<times> nat \<Rightarrow> u32 \<Rightarrow> u32" where
  "direct_pixel img x0 y0 color1 color2 xy bits =
    (case xy of (x, y) \<Rightarrow>
      let bits' = push_bit 1 bits
      in case fold (distance_step img (x0 + x) (y0 + y) color1 color2) [0..<3] (0, 0) of
           (d1, d2) \<Rightarrow> if d1 > d2 then bits' OR 1 else bits')"

definition direct_bits :: "image \<Rightarrow> nat \<Rightarrow> nat \<Rightarrow> top_colors \<Rightarrow> u32" where
  "direct_bits img x0 y0 t =
    fold (direct_pixel img x0 y0 (max_count_color_1 t) (max_count_color_2 t))
      block_coords 0"

text \<open>The loop that looks for the channel with the greatest range.\<close>

definition split_step :: "int list \<Rightarrow> int list \<Rightarrow> nat \<Rightarrow> nat \<times> int \<Rightarrow> nat \<times> int" where
  "split_step mn mx i sb =
    (case sb of (splitIndex, bestSplit) \<Rightarrow>
      if mx ! i - mn ! i > bestSplit then (i, mx ! i - mn ! i)
      else (splitIndex, bestSplit))"

definition choose_split :: "int list \<Rightarrow> int list \<Rightarrow> nat \<times> int" where
  "choose_split mn mx = fold (split_step mn mx) [0..<3] (0, 0)"

definition split_value :: "int list \<Rightarrow> int list \<Rightarrow> int" where
  "split_value mn mx =
    (case choose_split mn mx of (splitIndex, bestSplit) \<Rightarrow>
      mn ! splitIndex + c_div bestSplit 2)"

definition split_pixel :: "image \<Rightarrow> nat \<Rightarrow> nat \<Rightarrow> nat \<Rightarrow> int \<Rightarrow> nat \<times> nat \<Rightarrow> u32 \<Rightarrow> u32" where
  "split_pixel img x0 y0 splitIndex splitValue xy bits =
    (case xy of (x, y) \<Rightarrow>
      let bits' = push_bit 1 bits
      in if uint (img (x0 + x) (y0 + y) splitIndex) > splitValue then bits' OR 1
         else bits')"

definition split_bits :: "image \<Rightarrow> nat \<Rightarrow> nat \<Rightarrow> scan_state \<Rightarrow> u32" where
  "split_bits img x0 y0 s =
    fold (split_pixel img x0 y0 (fst (choose_split (min_ch s) (max_ch s)))
            (split_value (min_ch s) (max_ch s)))
      block_coords 0"

text \<open>The first half of \<open>findCharData\<close>, up to the coverage mask \<open>bits\<close>.\<close>

definition block_top :: "image \<Rightarrow> nat \<Rightarrow> nat \<Rightarrow> top_colors option" where
  "block_top img x0 y0 =
    top_two (color_per_count_of (count_per_color (scan_block img x0 y0)))"

definition block_bits :: "image \<Rightarrow> nat \<Rightarrow> nat \<Rightarrow> top_colors \<Rightarrow> u32" where
  "block_bits img x0 y0 t =
    (if is_direct t then direct_bits img x0 y0 t
     else split_bits img x0 y0 (scan_block img x0 y0))"

text \<open>The result in direct mode.\<close>

definition direct_result :: "search_state \<Rightarrow> top_colors \<Rightarrow> CharData" where
  "direct_result g t =
    (case (if inverted g then (max_count_color_2 t, max_count_color_1 t)
           else (max_count_color_1 t, max_count_color_2 t)) of
       (color1, color2) \<Rightarrow>
         \<lparr>fgColor = map (channel_of color2) [0..<3],
          bgColor = map (channel_of color1) [0..<3],
          codePoint = codepoint g\<rparr>)"

definition findCharData :: "image \<Rightarrow> nat \<Rightarrow> nat \<Rightarrow> 8 word \<Rightarrow> CharData option" where
  "findCharData img x0 y0 flags =
    (case block_top img x0 y0 of
       None \<Rightarrow> None
     | Some t \<Rightarrow>
         (case find_glyph (block_bits img x0 y0 t) flags of
            None \<Rightarrow> None
          | Some g \<Rightarrow>
              if is_direct t then Some (direct_result g t)
              else Some (createCharData img x0 y0 (codepoint g) (best_pattern g))))"

section \<open>\<open>emitTermColor\<close>\<close>

definition clamp_byte :: "int \<Rightarrow> int" where
  "clamp_byte v = (if v < 0 then 0 else (if v > 255 then 255 else v))"

text \<open>
  \<open>best_index\<close>: the loop over \<open>i = 1, ..., count - 1\<close> carries \<open>result\<close> and
  \<open>best_diff\<close>.
\<close>

definition best_index_step :: "int \<Rightarrow> int list \<Rightarrow> nat \<Rightarrow> nat \<times> int \<Rightarrow> nat \<times> int" where
  "best_index_step v STEPS i rb =
    (case rb of (result, bd) \<Rightarrow>
      let diff = \<bar>STEPS ! i - v\<bar>
      in if diff < bd then (i, diff) else (result, bd))"

definition best_index :: "int \<Rightarrow> int list \<Rightarrow> nat \<Rightarrow> nat" where
  "best_index v STEPS n =
    fst (fold (best_index_step v STEPS) [1..<n] (0, \<bar>STEPS ! 0 - v\<bar>))"

definition COLOR_STEP_COUNT :: nat where "COLOR_STEP_COUNT = 6"
definition GRAYSCALE_STEP_COUNT :: nat where "GRAYSCALE_STEP_COUNT = 24"

text \<open>
  The escape sequence that \<open>std::format\<close> builds, as the values that fill its
  placeholders: \<open>ESC [ sel ; 2 ; r ; g ; b m\<close> and \<open>ESC [ sel ; 5 ; index m\<close>.
\<close>

datatype escape = TrueColor int int int int | Palette int int

text \<open>
  Two values of \<open>emitTermColor\<close> come out of floating-point arithmetic: \<open>gray\<close>
  (a rounded sum of \<open>float\<close> products) and the outcome of the comparison between the
  two weighted errors (in \<open>double\<close>). Floating point is not modelled: both are
  arguments of the model, \<open>gray\<close> and \<open>cube_closer\<close>, and a statement about
  \<open>emitTermColor\<close> holds for whatever the arithmetic yields when it holds for all
  their values.
\<close>

definition emitTermColor :: "8 word \<Rightarrow> int \<Rightarrow> int \<Rightarrow> int \<Rightarrow> int \<Rightarrow> bool \<Rightarrow> escape" where
  "emitTermColor flags r0 g0 b0 gray cube_closer =
    (let r = clamp_byte r0; g = clamp_byte g0; b = clamp_byte b0;
         bg = (flags AND FLAG_BG \<noteq> 0)
     in if \<not> (flags AND FLAG_MODE_256 \<noteq> 0)
        then TrueColor (if bg then 48 else 38) r g b
        else
          let ri = best_index r COLOR_STEPS COLOR_STEP_COUNT;
              gi = best_index g COLOR_STEPS COLOR_STEP_COUNT;
              bi = best_index b COLOR_STEPS COLOR_STEP_COUNT;
              gri = best_index gray GRAYSCALE_STEPS GRAYSCALE_STEP_COUNT;
              color_index =
                (if cube_closer then 16 + 36 * int ri + 6 * int gi + int bi
                 else 232 + int gri)
          in Palette (if bg then 48 else 38) color_index)"

section \<open>Notions of the specification\<close>

text \<open>
  The dictionary as (pattern, code point) pairs, and the entries of the active
  search range: those before the end marker in force, without the sentinels (code
  points below 32).
\<close>

fun entries :: "u32 list \<Rightarrow> (u32 \<times> u32) list" where
  "entries (bm # cp # rest) = (bm, cp) # entries rest"
| "entries _ = []"

definition active_entries :: "8 word \<Rightarrow> (u32 \<times> u32) list" where
  "active_entries flags =
    filter (\<lambda>(bm, cp). \<not> cp < 32)
      (takeWhile (\<lambda>(bm, cp). cp \<noteq> end_marker_of flags) (entries BITMAPS))"

text \<open>The entries between the two end markers: the teletext extension.\<close>

definition extended_entries :: "(u32 \<times> u32) list" where
  "extended_entries =
    takeWhile (\<lambda>(bm, cp). cp \<noteq> 1) (tl (dropWhile (\<lambda>(bm, cp). cp \<noteq> 0) (entries BITMAPS)))"

definition hamming :: "u32 \<Rightarrow> u32 \<Rightarrow> int" where
  "hamming a b = popcount (a XOR b)"

text \<open>
  The distance of a dictionary pattern to a mask: the smaller of its Hamming
  distances to the mask and to the complement of the mask.
\<close>

definition entry_distance :: "u32 \<Rightarrow> u32 \<Rightarrow> int" where
  "entry_distance bits bm = min (hamming bm bits) (hamming bm (NOT bits))"

text \<open>
  A search state records the entry \<open>e\<close>: it holds the pattern and the code point of
  \<open>e\<close> as they stand in the dictionary, and its \<open>best_diff\<close> is the distance between
  the mask and the pattern of \<open>e\<close>, complemented when \<open>inverted\<close> is set.
\<close>

definition records :: "u32 \<Rightarrow> search_state \<Rightarrow> u32 \<times> u32 \<Rightarrow> bool" where
  "records bits s e \<longleftrightarrow>
     best_pattern s = fst e \<and> codepoint s = uint (snd e) \<and>
     best_diff s = hamming (if inverted s then NOT (fst e) else fst e) bits"

text \<open>The search step for one entry of the dictionary.\<close>

definition match_step :: "u32 \<Rightarrow> u32 \<times> u32 \<Rightarrow> search_state \<Rightarrow> search_state" where
  "match_step bits e = match_entry bits (fst e) (snd e)"

text \<open>
  Pixel \<open>k\<close> of a block in row-major order, as an (R, G, B) triple and on one
  channel.
\<close>

definition pixel_rgb :: "image \<Rightarrow> nat \<Rightarrow> nat \<Rightarrow> nat \<Rightarrow> u8 \<times> u8 \<times> u8" where
  "pixel_rgb img x0 y0 k =
    (img (x0 + k mod 4) (y0 + k div 4) 0, img (x0 + k mod 4) (y0 + k div 4) 1,
     img (x0 + k mod 4) (y0 + k div 4) 2)"

definition pixel_at :: "image \<Rightarrow> nat \<Rightarrow> nat \<Rightarrow> nat \<Rightarrow> nat \<Rightarrow> int" where
  "pixel_at img x0 y0 k i = uint (img (x0 + k mod 4) (y0 + k div 4) i)"

definition block_pixels :: "image \<Rightarrow> nat \<Rightarrow> nat \<Rightarrow> (u8 \<times> u8 \<times> u8) list" where
  "block_pixels img x0 y0 = map (pixel_rgb img x0 y0) [0..<32]"

text \<open>
  The frequencies of the distinct colours of a block in descending order, and the
  sum of the first two of them (of the only one when the block has a single colour).
\<close>

definition frequencies :: "image \<Rightarrow> nat \<Rightarrow> nat \<Rightarrow> int list" where
  "frequencies img x0 y0 =
    (let ps = block_pixels img x0 y0
     in rev (sort (map (\<lambda>c. int (count_list ps c)) (remdups ps))))"

definition top_two_coverage :: "image \<Rightarrow> nat \<Rightarrow> nat \<Rightarrow> int" where
  "top_two_coverage img x0 y0 = sum_list (take 2 (frequencies img x0 y0))"

text \<open>Least and greatest value of channel \<open>i\<close> over the block, and its range.\<close>

definition channel_min :: "image \<Rightarrow> nat \<Rightarrow> nat \<Rightarrow> nat \<Rightarrow> int" where
  "channel_min img x0 y0 i = Min ((\<lambda>k. pixel_at img x0 y0 k i) ` {0..<32})"

definition channel_max :: "image \<Rightarrow> nat \<Rightarrow> nat \<Rightarrow> nat \<Rightarrow> int" where
  "channel_max img x0 y0 i = Max ((\<lambda>k. pixel_at img x0 y0 k i) ` {0..<32})"

definition channel_range :: "image \<Rightarrow> nat \<Rightarrow> nat \<Rightarrow> nat \<Rightarrow> int" where
  "channel_range img x0 y0 i = channel_max img x0 y0 i - channel_min img x0 y0 i"

text \<open>
  The pixels of a bucket under a glyph pattern (pixel \<open>k\<close> is bit \<open>31 - k\<close>), and
  the truncated average of a list of pixels on one channel, 0 for the empty list.
\<close>

definition bucket :: "u32 \<Rightarrow> bool \<Rightarrow> nat list" where
  "bucket pattern fg = filter (\<lambda>k. bit pattern (31 - k) = fg) [0..<32]"

definition bucket_average :: "image \<Rightarrow> nat \<Rightarrow> nat \<Rightarrow> nat list \<Rightarrow> nat \<Rightarrow> int" where
  "bucket_average img x0 y0 ks i =
    (if ks = [] then 0
     else (\<Sum>k\<leftarrow>ks. pixel_at img x0 y0 k i) div int (length ks))"

text \<open>
  Blocks used as examples: a gradient that brightens from pixel to pixel, one that
  fades, horizontal stripes two rows high, and the flat colour (10, 20, 30).
\<close>

definition gradient_block :: image where
  "gradient_block x y c = of_nat (8 * (x + 4 * y) + c)"

definition fading_block :: image where
  "fading_block x y c = of_nat (250 - 8 * (x + 4 * y) + c)"

definition striped_block :: image where
  "striped_block x y c = (if y mod 4 < 2 then 255 else 0)"

definition flat_block :: image where
  "flat_block x y c = (if c = 0 then 10 else if c = 1 then 20 else 30)"

text \<open>Two blocks with the same 32 pixels.\<close>

definition same_block :: "image \<Rightarrow> nat \<Rightarrow> nat \<Rightarrow> image \<Rightarrow> nat \<Rightarrow> nat \<Rightarrow> bool" where
  "same_block img x0 y0 img' x0' y0' \<longleftrightarrow>
    (\<forall>k<32. pixel_rgb img x0 y0 k = pixel_rgb img' x0' y0' k)"

text \<open>The sums of a list of pixels on the three channels.\<close>

definition bucket_sums :: "image \<Rightarrow> nat \<Rightarrow> nat \<Rightarrow> nat list \<Rightarrow> int list" where
  "bucket_sums img x0 y0 ks = map (\<lambda>i. \<Sum>k\<leftarrow>ks. pixel_at img x0 y0 k i) [0, 1, 2]"

text \<open>
  The key under which the first scan counts a pixel: \<open>color = (color << 8) | d\<close>
  over the three channels, from \<open>color = 0\<close>.
\<close>

definition pack_rgb :: "u8 \<times> u8 \<times> u8 \<Rightarrow> int" where
  "pack_rgb p =
    (case p of (r, g, b) \<Rightarrow>
      push_bit 8 (push_bit 8 (push_bit 8 0 OR uint r) OR uint g) OR uint b)"

text \<open>
  A block whose first \<open>n\<close> pixels are white and whose other pixels are pairwise
  distinct greys.
\<close>

definition two_tone_block :: "nat \<Rightarrow> image" where
  "two_tone_block n x y c = (if x + 4 * y < n then 255 else of_nat (x + 4 * y))"

section \<open>The search loop as a fold over the active entries\<close>

lemma scan_bitmaps_fold:
  "end_marker \<in> snd ` set (entries xs) \<Longrightarrow>
   scan_bitmaps xs end_marker bits s =
     Some (fold (match_step bits)
       (filter (\<lambda>(bm, cp). \<not> cp < 32)
         (takeWhile (\<lambda>(bm, cp). cp \<noteq> end_marker) (entries xs))) s)"
  by (induction xs end_marker bits s rule: scan_bitmaps.induct)
    (auto simp add: match_step_def)

lemma markers_in_BITMAPS:
  "(0::u32) \<in> snd ` set (entries BITMAPS)" "(1::u32) \<in> snd ` set (entries BITMAPS)"
  by code_simp+

lemma find_glyph_fold:
  "find_glyph bits flags =
    Some (fold (match_step bits) (active_entries flags) initial_best)"
  unfolding find_glyph_def active_entries_def
  by (rule scan_bitmaps_fold) (simp add: end_marker_of_def markers_in_BITMAPS)

lemma hamming_NOT: "hamming (NOT bm) bits = hamming bm (NOT bits)"
  by (simp add: hamming_def)

lemma word_neq_NOT: "(w::u32) \<noteq> NOT w"
proof
  assume "w = NOT w"
  then have "bit w 0 = bit (NOT w) 0" by simp
  then show False by (simp add: bit_simps)
qed

lemma compare_pattern_cases:
  "compare_pattern bits bm cp p s = s \<and> best_diff s \<le> hamming p bits \<or>
   compare_pattern bits bm cp p s =
     \<lparr>best_diff = hamming p bits, best_pattern = bm, codepoint = uint cp,
      inverted = (bm \<noteq> p)\<rparr> \<and> hamming p bits < best_diff s"
  by (simp add: compare_pattern_def hamming_def Let_def)

lemma match_entry_best_diff:
  "best_diff (match_entry bits bm cp s) = min (best_diff s) (entry_distance bits bm)"
  by (simp add: match_entry_def compare_pattern_def entry_distance_def hamming_def
      Let_def min_def)

lemma match_entry_cases:
  "match_entry bits bm cp s = s \<or>
   records bits (match_entry bits bm cp s) (bm, cp) \<and>
     best_diff (match_entry bits bm cp s) < best_diff s"
  using word_neq_NOT [of bm]
  by (auto simp add: match_entry_def compare_pattern_def records_def hamming_def Let_def)

lemma fold_match_best_diff:
  "best_diff (fold (match_step bits) es s) \<le> best_diff s \<and>
   (\<forall>e\<in>set es. best_diff (fold (match_step bits) es s) \<le> entry_distance bits (fst e))"
proof (induction es arbitrary: s)
  case Nil
  show ?case by simp
next
  case (Cons e es)
  obtain bm cp where e: "e = (bm, cp)" by (cases e)
  from Cons [of "match_entry bits bm cp s"] show ?case
    by (auto simp add: e match_step_def match_entry_best_diff)
qed

lemma fold_match_cases:
  "fold (match_step bits) es s = s \<or>
   (\<exists>e\<in>set es. records bits (fold (match_step bits) es s) e) \<and>
     best_diff (fold (match_step bits) es s) < best_diff s"
proof (induction es arbitrary: s)
  case Nil
  show ?case by simp
next
  case (Cons e es)
  obtain bm cp where e: "e = (bm, cp)" by (cases e)
  let ?s1 = "match_entry bits bm cp s"
  from Cons [of ?s1] match_entry_cases [of bits bm cp s] show ?case
    by (auto simp add: e match_step_def)
qed

lemma records_distance:
  "records bits r e \<Longrightarrow> entry_distance bits (fst e) \<le> best_diff r"
  by (auto simp add: records_def entry_distance_def hamming_NOT [symmetric])

lemma fold_match_unchanged:
  assumes "\<forall>e\<in>set es. best_diff s \<le> entry_distance bits (fst e)"
  shows "fold (match_step bits) es s = s"
proof (rule ccontr)
  assume "fold (match_step bits) es s \<noteq> s"
  with fold_match_cases [of bits es s] obtain e where e: "e \<in> set es"
    and r: "records bits (fold (match_step bits) es s) e"
    and less: "best_diff (fold (match_step bits) es s) < best_diff s"
    by blast
  from records_distance [OF r] assms e less show False by fastforce
qed

lemma find_glyph_cases:
  "find_glyph bits flags = Some initial_best \<or>
   (\<exists>r. find_glyph bits flags = Some r \<and> best_diff r < 8 \<and>
     (\<exists>e\<in>set (active_entries flags). records bits r e))"
  using fold_match_cases [of bits "active_entries flags" initial_best]
  by (auto simp add: find_glyph_fold initial_best_def)

lemma active_entries_not_sentinel: "e \<in> set (active_entries flags) \<Longrightarrow> 32 \<le> uint (snd e)"
  by (auto simp add: active_entries_def word_less_def)

lemma active_entries_standard:
  "flags AND FLAG_TELETEXT = 0 \<Longrightarrow> active_entries flags = active_entries 0"
  by (simp add: active_entries_def end_marker_of_def)

lemma standard_not_extended:
  "\<forall>e\<in>set (active_entries 0). uint (snd e) \<notin> (\<lambda>e. uint (snd e)) ` set extended_entries"
  by code_simp

lemma fallback_not_extended: "0x2584 \<notin> (\<lambda>e. uint (snd e)) ` set extended_entries"
  by code_simp

section \<open>\<open>findCharData\<close> always returns\<close>

lemma block_coords_eq: "block_coords = map (\<lambda>k. (k mod 4, k div 4)) [0..<32]"
  by code_simp

lemma map_increment_not_Nil: "map_increment k m \<noteq> []"
  by (cases m) (auto split: if_splits)

lemma scan_pixel_count_not_Nil: "count_per_color (scan_pixel img x0 y0 xy s) \<noteq> []"
  by (simp add: scan_pixel_def map_increment_not_Nil split: prod.split)

lemma fold_scan_pixel_count_not_Nil:
  "xys \<noteq> [] \<or> count_per_color s \<noteq> [] \<Longrightarrow>
   count_per_color (fold (scan_pixel img x0 y0) xys s) \<noteq> []"
proof (induction xys arbitrary: s)
  case Nil
  then show ?case by simp
next
  case (Cons xy xys)
  show ?case using Cons.IH [of "scan_pixel img x0 y0 xy s"]
    by (simp add: scan_pixel_count_not_Nil)
qed

lemma scan_block_count_not_Nil: "count_per_color (scan_block img x0 y0) \<noteq> []"
  unfolding scan_block_def
  by (rule fold_scan_pixel_count_not_Nil) (simp add: block_coords_eq)

lemma multimap_insert_not_Nil: "multimap_insert e m \<noteq> []"
  by (cases m) auto

lemma color_per_count_of_not_Nil: "m \<noteq> [] \<Longrightarrow> color_per_count_of m \<noteq> []"
proof -
  have "acc \<noteq> [] \<or> m \<noteq> [] \<Longrightarrow>
      fold (\<lambda>(color, n) cpc. multimap_insert (n, color) cpc) m acc \<noteq> []" for acc
  proof (induction m arbitrary: acc)
    case Nil
    then show ?case by simp
  next
    case (Cons e m)
    show ?case using Cons.IH [of "multimap_insert (snd e, fst e) acc"]
      by (cases e) (simp add: multimap_insert_not_Nil)
  qed
  then show "m \<noteq> [] \<Longrightarrow> color_per_count_of m \<noteq> []"
    by (simp add: color_per_count_of_def)
qed

lemma top_two_Some: "m \<noteq> [] \<Longrightarrow> \<exists>t. top_two m = Some t"
  by (cases "rev m") (auto simp add: top_two_def split: list.split)

lemma block_top_Some: "\<exists>t. block_top img x0 y0 = Some t"
  unfolding block_top_def
  by (intro top_two_Some color_per_count_of_not_Nil scan_block_count_not_Nil)

lemma find_glyph_codepoint:
  "\<exists>r. find_glyph bits flags = Some r \<and> 32 \<le> codepoint r"
proof -
  from find_glyph_cases [of bits flags] show ?thesis
  proof
    assume "find_glyph bits flags = Some initial_best"
    then show ?thesis by (simp add: initial_best_def)
  next
    assume "\<exists>r. find_glyph bits flags = Some r \<and> best_diff r < 8 \<and>
      (\<exists>e\<in>set (active_entries flags). records bits r e)"
    then obtain r e where r: "find_glyph bits flags = Some r"
      and e: "e \<in> set (active_entries flags)" and rec: "records bits r e"
      by blast
    from active_entries_not_sentinel [OF e] rec have "32 \<le> codepoint r"
      by (simp add: records_def)
    with r show ?thesis by blast
  qed
qed

lemma codePoint_createCharData: "codePoint (createCharData img x0 y0 cp pattern) = cp"
  by (simp add: createCharData_def Let_def)

lemma codePoint_direct_result: "codePoint (direct_result g t) = codepoint g"
  by (simp add: direct_result_def)

section \<open>Polarity of a match\<close>

lemma popcount_NOT: "popcount (NOT w) = 32 - popcount w"
proof -
  have "(\<Sum>n\<leftarrow>ns. if bit (NOT w) n then 1 else 0) =
      int (length ns) - (\<Sum>n\<leftarrow>ns. if bit w n then 1 else (0::int))"
    if "\<forall>n\<in>set ns. n < 32" for ns
    using that by (induction ns) (auto simp add: bit_simps)
  from this [of "[0..<32]"] show ?thesis by (simp add: popcount_def)
qed

lemma hamming_complement: "hamming (NOT bm) bits = 32 - hamming bm bits"
  by (simp add: hamming_def popcount_NOT [symmetric])

lemma records_polarity:
  assumes "records bits r e" and "best_diff r < 8"
  shows "inverted r = (hamming (NOT (fst e)) bits < hamming (fst e) bits)"
  using assms hamming_complement [of "fst e" bits]
  by (auto simp add: records_def split: if_splits)

lemma findCharData_split:
  assumes "block_top img x0 y0 = Some t" and "\<not> is_direct t"
  shows "\<exists>r. find_glyph (block_bits img x0 y0 t) flags = Some r \<and>
           findCharData img x0 y0 flags =
             Some (createCharData img x0 y0 (codepoint r) (best_pattern r))"
proof -
  from find_glyph_codepoint obtain r
    where "find_glyph (block_bits img x0 y0 t) flags = Some r" by blast
  with assms show ?thesis by (simp add: findCharData_def)
qed

section \<open>\<open>findCharData\<close> reads the 32 pixels of the block only\<close>

lemma upt_3: "[0..<3] = [0, 1, 2]"
  by code_simp

lemma set_block_coords: "set block_coords = (\<lambda>k. (k mod 4, k div 4)) ` {0..<32}"
  by (simp add: block_coords_eq)

lemma same_blockD:
  assumes "same_block img x0 y0 img' x0' y0'" and "xy \<in> set block_coords"
  shows "img (x0 + fst xy) (y0 + snd xy) 0 = img' (x0' + fst xy) (y0' + snd xy) 0"
    and "img (x0 + fst xy) (y0 + snd xy) (Suc 0) = img' (x0' + fst xy) (y0' + snd xy) (Suc 0)"
    and "img (x0 + fst xy) (y0 + snd xy) 2 = img' (x0' + fst xy) (y0' + snd xy) 2"
  using assms by (auto simp add: same_block_def set_block_coords pixel_rgb_def)

lemma scan_block_cong:
  assumes "same_block img x0 y0 img' x0' y0'"
  shows "scan_block img x0 y0 = scan_block img' x0' y0'"
  unfolding scan_block_def
proof (rule fold_cong [OF refl refl])
  fix xy assume "xy \<in> set block_coords"
  from same_blockD [OF assms this]
  show "scan_pixel img x0 y0 xy = scan_pixel img' x0' y0' xy"
    by (cases xy) (simp add: fun_eq_iff scan_pixel_def scan_channel_def upt_3)
qed

lemma direct_bits_cong:
  assumes "same_block img x0 y0 img' x0' y0'"
  shows "direct_bits img x0 y0 t = direct_bits img' x0' y0' t"
  unfolding direct_bits_def
proof (rule fold_cong [OF refl refl])
  fix xy assume "xy \<in> set block_coords"
  from same_blockD [OF assms this]
  show "direct_pixel img x0 y0 (max_count_color_1 t) (max_count_color_2 t) xy =
      direct_pixel img' x0' y0' (max_count_color_1 t) (max_count_color_2 t) xy"
    by (cases xy) (simp add: fun_eq_iff direct_pixel_def distance_step_def upt_3)
qed

lemma choose_split_index: "fst (choose_split mn mx) \<in> {0, 1, 2}"
  by (simp add: choose_split_def split_step_def upt_3)

lemma split_bits_cong:
  assumes "same_block img x0 y0 img' x0' y0'"
  shows "split_bits img x0 y0 s = split_bits img' x0' y0' s"
  unfolding split_bits_def
proof (rule fold_cong [OF refl refl])
  fix xy assume "xy \<in> set block_coords"
  from same_blockD [OF assms this] choose_split_index [of "min_ch s" "max_ch s"]
  show "split_pixel img x0 y0 (fst (choose_split (min_ch s) (max_ch s)))
        (split_value (min_ch s) (max_ch s)) xy =
      split_pixel img' x0' y0' (fst (choose_split (min_ch s) (max_ch s)))
        (split_value (min_ch s) (max_ch s)) xy"
    by (cases xy) (auto simp add: fun_eq_iff split_pixel_def)
qed

lemma createCharData_cong:
  assumes "same_block img x0 y0 img' x0' y0'"
  shows "createCharData img x0 y0 cp pattern = createCharData img' x0' y0' cp pattern"
proof -
  have "fold (accumulate_pixel img x0 y0 pattern) block_coords s =
      fold (accumulate_pixel img' x0' y0' pattern) block_coords s" for s
  proof (rule fold_cong [OF refl refl])
    fix xy assume "xy \<in> set block_coords"
    from same_blockD [OF assms this]
    show "accumulate_pixel img x0 y0 pattern xy = accumulate_pixel img' x0' y0' pattern xy"
      by (cases xy) (simp add: fun_eq_iff accumulate_pixel_def add_pixel_def upt_3)
  qed
  then show ?thesis by (simp add: createCharData_def)
qed

lemma findCharData_cong:
  assumes "same_block img x0 y0 img' x0' y0'"
  shows "findCharData img x0 y0 flags = findCharData img' x0' y0' flags"
proof -
  have "block_top img x0 y0 = block_top img' x0' y0'"
    by (simp add: block_top_def scan_block_cong [OF assms])
  moreover have "block_bits img x0 y0 t = block_bits img' x0' y0' t" for t
    by (simp add: block_bits_def scan_block_cong [OF assms] direct_bits_cong [OF assms]
        split_bits_cong [OF assms])
  ultimately show ?thesis
    by (simp add: findCharData_def createCharData_cong [OF assms]
        cong: option.case_cong if_cong)
qed

lemma find_glyph_flags:
  "find_glyph bits flags = find_glyph bits (if flags AND FLAG_TELETEXT \<noteq> 0 then 32 else 0)"
  by (simp add: find_glyph_def end_marker_of_def FLAG_TELETEXT_def)

lemma find_glyph_zero:
  "find_glyph 0 flags =
    Some \<lparr>best_diff = 0, best_pattern = 0, codepoint = 0x00a0, inverted = False\<rparr>"
proof -
  have "find_glyph 0 0 =
      Some \<lparr>best_diff = 0, best_pattern = 0, codepoint = 0x00a0, inverted = False\<rparr>"
    by code_simp
  moreover have "find_glyph 0 32 =
      Some \<lparr>best_diff = 0, best_pattern = 0, codepoint = 0x00a0, inverted = False\<rparr>"
    by code_simp
  ultimately show ?thesis by (simp add: find_glyph_flags [of 0 flags])
qed

section \<open>The two loops of \<open>createCharData\<close>\<close>

lemma add_pixel_3:
  "add_pixel img px py [a, b, c] =
    [a + uint (img px py 0), b + uint (img px py 1), c + uint (img px py 2)]"
  by (simp add: add_pixel_def upt_3)

lemma mask_bit:
  assumes "n < 32"
  shows "(pattern AND drop_bit n (0x80000000 :: u32) \<noteq> 0) = bit pattern (31 - n)"
proof -
  have "(0x80000000 :: u32) = 2 ^ 31" by simp
  then have "drop_bit n (0x80000000 :: u32) = 2 ^ (31 - n)"
    using assms by (simp only: drop_bit_exp_eq) simp
  then show ?thesis by (simp add: and_exp_eq_0_iff_not_bit)
qed

lemma bucket_sums_snoc:
  "bucket_sums img x0 y0 (ks @ [k]) =
    add_pixel img (x0 + k mod 4) (y0 + k div 4) (bucket_sums img x0 y0 ks)"
  by (simp add: bucket_sums_def add_pixel_3 pixel_at_def)

lemma accumulate_pixels:
  assumes "n \<le> 32"
  shows "fold (accumulate_pixel img x0 y0 pattern) (map (\<lambda>k. (k mod 4, k div 4)) [0..<n])
      \<lparr>fg_acc = [0, 0, 0], bg_acc = [0, 0, 0], fg_count = 0, bg_count = 0,
       mask = 0x80000000\<rparr> =
    \<lparr>fg_acc = bucket_sums img x0 y0 (filter (\<lambda>k. bit pattern (31 - k)) [0..<n]),
     bg_acc = bucket_sums img x0 y0 (filter (\<lambda>k. \<not> bit pattern (31 - k)) [0..<n]),
     fg_count = int (length (filter (\<lambda>k. bit pattern (31 - k)) [0..<n])),
     bg_count = int (length (filter (\<lambda>k. \<not> bit pattern (31 - k)) [0..<n])),
     mask = drop_bit n 0x80000000\<rparr>"
  using assms
proof (induction n)
  case 0
  show ?case by (simp add: bucket_sums_def)
next
  case (Suc n)
  then have n: "n < 32" and IH: "fold (accumulate_pixel img x0 y0 pattern)
      (map (\<lambda>k. (k mod 4, k div 4)) [0..<n])
      \<lparr>fg_acc = [0, 0, 0], bg_acc = [0, 0, 0], fg_count = 0, bg_count = 0,
       mask = 0x80000000\<rparr> =
    \<lparr>fg_acc = bucket_sums img x0 y0 (filter (\<lambda>k. bit pattern (31 - k)) [0..<n]),
     bg_acc = bucket_sums img x0 y0 (filter (\<lambda>k. \<not> bit pattern (31 - k)) [0..<n]),
     fg_count = int (length (filter (\<lambda>k. bit pattern (31 - k)) [0..<n])),
     bg_count = int (length (filter (\<lambda>k. \<not> bit pattern (31 - k)) [0..<n])),
     mask = drop_bit n 0x80000000\<rparr>"
    by simp_all
  show ?case
    by (simp only: upt_Suc_append [OF le0] map_append fold_append comp_apply IH)
      (simp add: accumulate_pixel_def mask_bit [OF n] bucket_sums_snoc drop_bit_drop_bit)
qed


lemma c_div_nonneg: "0 \<le> a \<Longrightarrow> 0 < b \<Longrightarrow> c_div a b = a div b"
  by (cases "a = 0") (simp_all add: c_div_def)

lemma pixel_at_nonneg: "0 \<le> pixel_at img x0 y0 k i"
  by (simp add: pixel_at_def)

lemma sum_pixel_at_nonneg: "0 \<le> (\<Sum>k\<leftarrow>ks. pixel_at img x0 y0 k i)"
  by (rule sum_list_nonneg) (auto simp add: pixel_at_nonneg)

lemma average_channels:
  assumes "fg_acc s = [a, b, c]" and "bg_acc s = [d, e, f]"
  shows "fg_acc (fold average_channel [0..<3] s) =
      (if fg_count s \<noteq> 0
       then [c_div a (fg_count s), c_div b (fg_count s), c_div c (fg_count s)]
       else [a, b, c])"
    and "bg_acc (fold average_channel [0..<3] s) =
      (if bg_count s \<noteq> 0
       then [c_div d (bg_count s), c_div e (bg_count s), c_div f (bg_count s)]
       else [d, e, f])"
  using assms by (simp_all add: upt_3 average_channel_def Let_def)

lemma averaged_buckets:
  assumes "fg_acc s = bucket_sums img x0 y0 ks" and "bg_acc s = bucket_sums img x0 y0 ks'"
    and "fg_count s = int (length ks)" and "bg_count s = int (length ks')"
  shows "fg_acc (fold average_channel [0..<3] s) =
      map (bucket_average img x0 y0 ks) [0..<3]"
    and "bg_acc (fold average_channel [0..<3] s) =
      map (bucket_average img x0 y0 ks') [0..<3]"
proof -
  have avg: "(if int (length js) \<noteq> 0
      then [c_div (\<Sum>k\<leftarrow>js. pixel_at img x0 y0 k 0) (int (length js)),
            c_div (\<Sum>k\<leftarrow>js. pixel_at img x0 y0 k 1) (int (length js)),
            c_div (\<Sum>k\<leftarrow>js. pixel_at img x0 y0 k 2) (int (length js))]
      else [\<Sum>k\<leftarrow>js. pixel_at img x0 y0 k 0, \<Sum>k\<leftarrow>js. pixel_at img x0 y0 k 1,
            \<Sum>k\<leftarrow>js. pixel_at img x0 y0 k 2]) =
     map (bucket_average img x0 y0 js) [0..<3]" for js
    by (cases js) (simp_all add: upt_3 bucket_average_def c_div_nonneg sum_pixel_at_nonneg
        add_nonneg_nonneg pixel_at_nonneg)
  from assms(1,2) have acc:
    "fg_acc s = [\<Sum>k\<leftarrow>ks. pixel_at img x0 y0 k 0, \<Sum>k\<leftarrow>ks. pixel_at img x0 y0 k 1,
       \<Sum>k\<leftarrow>ks. pixel_at img x0 y0 k 2]"
    "bg_acc s = [\<Sum>k\<leftarrow>ks'. pixel_at img x0 y0 k 0, \<Sum>k\<leftarrow>ks'. pixel_at img x0 y0 k 1,
       \<Sum>k\<leftarrow>ks'. pixel_at img x0 y0 k 2]"
    by (simp_all add: bucket_sums_def)
  show "fg_acc (fold average_channel [0..<3] s) = map (bucket_average img x0 y0 ks) [0..<3]"
    by (simp only: average_channels(1) [OF acc] assms(3) avg)
  show "bg_acc (fold average_channel [0..<3] s) = map (bucket_average img x0 y0 ks') [0..<3]"
    by (simp only: average_channels(2) [OF acc] assms(4) avg)
qed

section \<open>Split mode\<close>

lemma scan_pixel_min_max:
  assumes "min_ch s = [a0, a1, a2]" and "max_ch s = [b0, b1, b2]"
  shows "min_ch (scan_pixel img x0 y0 (k mod 4, k div 4) s) =
      [min a0 (pixel_at img x0 y0 k 0), min a1 (pixel_at img x0 y0 k 1),
       min a2 (pixel_at img x0 y0 k 2)]"
    and "max_ch (scan_pixel img x0 y0 (k mod 4, k div 4) s) =
      [max b0 (pixel_at img x0 y0 k 0), max b1 (pixel_at img x0 y0 k 1),
       max b2 (pixel_at img x0 y0 k 2)]"
  using assms by (simp_all add: scan_pixel_def scan_channel_def upt_3 pixel_at_def Let_def)

lemma fold_scan_pixel_min_max:
  assumes "min_ch s = [a0, a1, a2]" and "max_ch s = [b0, b1, b2]"
  shows "min_ch (fold (scan_pixel img x0 y0) (map (\<lambda>k. (k mod 4, k div 4)) ks) s) =
      [fold min (map (\<lambda>k. pixel_at img x0 y0 k 0) ks) a0,
       fold min (map (\<lambda>k. pixel_at img x0 y0 k 1) ks) a1,
       fold min (map (\<lambda>k. pixel_at img x0 y0 k 2) ks) a2] \<and>
    max_ch (fold (scan_pixel img x0 y0) (map (\<lambda>k. (k mod 4, k div 4)) ks) s) =
      [fold max (map (\<lambda>k. pixel_at img x0 y0 k 0) ks) b0,
       fold max (map (\<lambda>k. pixel_at img x0 y0 k 1) ks) b1,
       fold max (map (\<lambda>k. pixel_at img x0 y0 k 2) ks) b2]"
  using assms
proof (induction ks arbitrary: s a0 a1 a2 b0 b1 b2)
  case Nil
  then show ?case by simp
next
  case (Cons k ks)
  from Cons.IH [OF scan_pixel_min_max [OF Cons.prems]] show ?case
    by (simp add: min.commute max.commute)
qed

lemma pixel_at_le: "pixel_at img x0 y0 k i \<le> 255"
  using uint_lt2p [of "img (x0 + k mod 4) (y0 + k div 4) i"] by (simp add: pixel_at_def)

lemma fold_min_block:
  "fold min (map (\<lambda>k. pixel_at img x0 y0 k i) [0..<32]) 255 = channel_min img x0 y0 i"
proof -
  let ?S = "(\<lambda>k. pixel_at img x0 y0 k i) ` {0..<32}"
  have "fold min (map (\<lambda>k. pixel_at img x0 y0 k i) [0..<32]) 255 =
      Min (set (255 # map (\<lambda>k. pixel_at img x0 y0 k i) [0..<32]))"
    by (simp only: Min.set_eq_fold)
  also have "\<dots> = Min (insert 255 ?S)" by simp
  also have "\<dots> = min 255 (Min ?S)" by (rule Min_insert) auto
  also have "\<dots> = Min ?S"
  proof (rule min_absorb2)
    have "Min ?S \<le> pixel_at img x0 y0 0 i" by (rule Min_le) auto
    also note pixel_at_le [of img x0 y0 0 i]
    finally show "Min ?S \<le> 255" .
  qed
  finally show ?thesis by (simp add: channel_min_def)
qed

lemma fold_max_block:
  "fold max (map (\<lambda>k. pixel_at img x0 y0 k i) [0..<32]) 0 = channel_max img x0 y0 i"
proof -
  let ?S = "(\<lambda>k. pixel_at img x0 y0 k i) ` {0..<32}"
  have "fold max (map (\<lambda>k. pixel_at img x0 y0 k i) [0..<32]) 0 =
      Max (set (0 # map (\<lambda>k. pixel_at img x0 y0 k i) [0..<32]))"
    by (simp only: Max.set_eq_fold)
  also have "\<dots> = Max (insert 0 ?S)" by simp
  also have "\<dots> = max 0 (Max ?S)" by (rule Max_insert) auto
  also have "\<dots> = Max ?S"
  proof (rule max_absorb2)
    note pixel_at_nonneg [of img x0 y0 0 i]
    also have "pixel_at img x0 y0 0 i \<le> Max ?S" by (rule Max_ge) auto
    finally show "0 \<le> Max ?S" .
  qed
  finally show ?thesis by (simp add: channel_max_def)
qed

lemma scan_block_min_max:
  "min_ch (scan_block img x0 y0) =
     [channel_min img x0 y0 0, channel_min img x0 y0 1, channel_min img x0 y0 2]"
  "max_ch (scan_block img x0 y0) =
     [channel_max img x0 y0 0, channel_max img x0 y0 1, channel_max img x0 y0 2]"
  using fold_scan_pixel_min_max [of
      "\<lparr>min_ch = [255, 255, 255], max_ch = [0, 0, 0], count_per_color = []\<rparr>"
      255 255 255 0 0 0 img x0 y0 "[0..<32]"]
  by (simp_all only: scan_block_def block_coords_eq fold_min_block fold_max_block
      scan_state.simps)

lemma channel_range_nonneg: "0 \<le> channel_range img x0 y0 i"
proof -
  let ?S = "(\<lambda>k. pixel_at img x0 y0 k i) ` {0..<32}"
  have "Min ?S \<le> pixel_at img x0 y0 0 i" by (rule Min_le) auto
  moreover have "pixel_at img x0 y0 0 i \<le> Max ?S" by (rule Max_ge) auto
  ultimately show ?thesis by (simp add: channel_range_def channel_min_def channel_max_def)
qed

lemma choose_split_3:
  assumes "0 \<le> b0 - a0"
  shows "choose_split [a0, a1, a2] [b0, b1, b2] =
    (if b1 - a1 \<le> b0 - a0 \<and> b2 - a2 \<le> b0 - a0 then (0, b0 - a0)
     else if b2 - a2 \<le> b1 - a1 then (1, b1 - a1)
     else (2, b2 - a2))"
  using assms by (auto simp add: choose_split_def split_step_def upt_3)

lemma bit_shift_in:
  fixes w :: u32
  assumes "j < 32"
  shows "bit (let bits' = push_bit 1 w in if b then bits' OR 1 else bits') j =
    (if j = 0 then b else bit w (j - 1))"
  using assms
  by (cases j; cases b) (simp_all only: Let_def if_True if_False bit_or_iff bit_push_bit_iff
      bit_1_iff, auto)

lemma fold_shift_bits:
  fixes f :: "nat \<Rightarrow> bool"
  assumes "n \<le> 32" and "j < n"
  shows "bit (fold (\<lambda>k bits. let bits' = push_bit 1 bits in if f k then bits' OR 1 else bits')
            [0..<n] (0 :: u32)) j = f (n - 1 - j)"
  using assms
proof (induction n arbitrary: j)
  case 0
  then show ?case by simp
next
  case (Suc n)
  from Suc.prems have j: "j < 32" by simp
  show ?case
  proof (cases j)
    case 0
    with bit_shift_in [OF j] show ?thesis
      by (simp only: upt_Suc_append [OF le0] fold_append comp_apply fold_simps) simp
  next
    case (Suc i)
    with Suc.prems have "i < n" "n \<le> 32" by simp_all
    with Suc.IH [of i] Suc bit_shift_in [OF j] show ?thesis
      by (simp only: upt_Suc_append [OF le0] fold_append comp_apply fold_simps) simp
  qed
qed

lemma split_bits_bit:
  assumes "k < 32"
  shows "bit (split_bits img x0 y0 s) (31 - k) =
    (split_value (min_ch s) (max_ch s) <
       pixel_at img x0 y0 k (fst (choose_split (min_ch s) (max_ch s))))"
proof -
  let ?si = "fst (choose_split (min_ch s) (max_ch s))"
  let ?sv = "split_value (min_ch s) (max_ch s)"
  have step: "(\<lambda>k. split_pixel img x0 y0 ?si ?sv (k mod 4, k div 4)) =
      (\<lambda>k bits. let bits' = push_bit 1 bits
                 in if ?sv < pixel_at img x0 y0 k ?si then bits' OR 1 else bits')"
    by (simp add: fun_eq_iff split_pixel_def pixel_at_def)
  have "split_bits img x0 y0 s =
      fold (\<lambda>k bits. let bits' = push_bit 1 bits
                      in if ?sv < pixel_at img x0 y0 k ?si then bits' OR 1 else bits')
        [0..<32] 0"
    by (simp only: split_bits_def block_coords_eq fold_map comp_def step)
  moreover from assms have "31 - k < 32" "32 - 1 - (31 - k) = k" by simp_all
  ultimately show ?thesis
    using fold_shift_bits [of 32 "31 - k" "\<lambda>k. ?sv < pixel_at img x0 y0 k ?si"]
    by simp
qed

lemma all_less_3: "(\<forall>i<3. P i) \<longleftrightarrow> P 0 \<and> P 1 \<and> P (2::nat)"
  by (auto simp add: numeral_3_eq_3 numeral_2_eq_2 less_Suc_eq)

lemma all_less_2: "(\<forall>i<2. P i) \<longleftrightarrow> P 0 \<and> P (1::nat)"
  by (auto simp add: numeral_2_eq_2 less_Suc_eq)

lemma choose_split_block:
  "fst (choose_split (min_ch (scan_block img x0 y0)) (max_ch (scan_block img x0 y0))) < 3 \<and>
   (\<forall>i<3. channel_range img x0 y0 i \<le> channel_range img x0 y0
      (fst (choose_split (min_ch (scan_block img x0 y0)) (max_ch (scan_block img x0 y0))))) \<and>
   (\<forall>i<fst (choose_split (min_ch (scan_block img x0 y0)) (max_ch (scan_block img x0 y0))).
      channel_range img x0 y0 i < channel_range img x0 y0
      (fst (choose_split (min_ch (scan_block img x0 y0)) (max_ch (scan_block img x0 y0))))) \<and>
   split_value (min_ch (scan_block img x0 y0)) (max_ch (scan_block img x0 y0)) =
     channel_min img x0 y0
       (fst (choose_split (min_ch (scan_block img x0 y0)) (max_ch (scan_block img x0 y0)))) +
     channel_range img x0 y0
       (fst (choose_split (min_ch (scan_block img x0 y0)) (max_ch (scan_block img x0 y0))))
       div 2"
proof -
  have r: "0 \<le> channel_max img x0 y0 0 - channel_min img x0 y0 0"
    "0 \<le> channel_max img x0 y0 1 - channel_min img x0 y0 1"
    "0 \<le> channel_max img x0 y0 2 - channel_min img x0 y0 2"
    using channel_range_nonneg [of img x0 y0] by (simp_all add: channel_range_def)
  show ?thesis
    using r
    by (auto simp add: scan_block_min_max choose_split_3 [OF r(1)] split_value_def
        channel_range_def all_less_3 all_less_2 c_div_nonneg)
qed

section \<open>The colour counts\<close>

lemma bit_pack_rgb:
  "bit (pack_rgb (r, g, b)) n \<longleftrightarrow>
    (n < 8 \<and> bit b n) \<or> (8 \<le> n \<and> n < 16 \<and> bit g (n - 8)) \<or>
    (16 \<le> n \<and> n < 24 \<and> bit r (n - 16))"
  using bit_imp_le_length [of b n] bit_imp_le_length [of g "n - 8"]
    bit_imp_le_length [of r "n - 16"]
  by (auto simp add: pack_rgb_def bit_simps)

lemma inj_pack_rgb: "inj pack_rgb"
proof (rule injI)
  fix p q :: "u8 \<times> u8 \<times> u8"
  assume eq: "pack_rgb p = pack_rgb q"
  obtain r g b where p: "p = (r, g, b)" by (cases p)
  obtain r' g' b' where q: "q = (r', g', b')" by (cases q)
  have bits: "bit (pack_rgb (r, g, b)) n = bit (pack_rgb (r', g', b')) n" for n
    using eq by (simp add: p q)
  have "b = b'"
  proof (rule bit_word_eqI)
    fix n assume "n < LENGTH(8)"
    with bits [of n] show "bit b n = bit b' n" by (simp add: bit_pack_rgb)
  qed
  moreover have "g = g'"
  proof (rule bit_word_eqI)
    fix n assume "n < LENGTH(8)"
    with bits [of "n + 8"] show "bit g n = bit g' n" by (simp add: bit_pack_rgb)
  qed
  moreover have "r = r'"
  proof (rule bit_word_eqI)
    fix n assume "n < LENGTH(8)"
    with bits [of "n + 16"] show "bit r n = bit r' n" by (simp add: bit_pack_rgb)
  qed
  ultimately show "p = q" by (simp add: p q)
qed

lemma scan_pixel_count:
  "count_per_color (scan_pixel img x0 y0 (k mod 4, k div 4) s) =
    map_increment (pack_rgb (pixel_rgb img x0 y0 k)) (count_per_color s)"
  by (simp add: scan_pixel_def scan_channel_def upt_3 Let_def pack_rgb_def pixel_rgb_def)

lemma fold_scan_pixel_count:
  "count_per_color (fold (scan_pixel img x0 y0) (map (\<lambda>k. (k mod 4, k div 4)) ks) s) =
    fold map_increment (map (\<lambda>k. pack_rgb (pixel_rgb img x0 y0 k)) ks) (count_per_color s)"
  by (induction ks arbitrary: s) (simp_all add: scan_pixel_count)

lemma scan_block_count:
  "count_per_color (scan_block img x0 y0) =
    fold map_increment (map pack_rgb (block_pixels img x0 y0)) []"
  by (simp add: scan_block_def block_coords_eq fold_scan_pixel_count block_pixels_def comp_def)

lemma map_increment_keys:
  "set (map fst (map_increment k m)) = insert k (set (map fst m))"
  by (induction k m rule: map_increment.induct) auto

lemma map_increment_sorted:
  "sorted_wrt (<) (map fst m) \<Longrightarrow> sorted_wrt (<) (map fst (map_increment k m))"
proof (induction k m rule: map_increment.induct)
  case (1 k)
  show ?case by simp
next
  case (2 k k' v m)
  consider "k < k'" | "k = k'" | "k' < k" by linarith
  then show ?case
  proof cases
    case 1
    with 2(2) show ?thesis by auto
  next
    case 2
    with \<open>sorted_wrt (<) (map fst ((k', v) # m))\<close> show ?thesis by simp
  next
    case 3
    with 2 have "sorted_wrt (<) (map fst (map_increment k m))" by simp
    moreover from 3 2(2) have "\<forall>x\<in>set (map fst (map_increment k m)). k' < x"
      by (simp only: map_increment_keys) simp
    ultimately show ?thesis using 3 by simp
  qed
qed

lemma remdups_map_inj: "inj f \<Longrightarrow> remdups (map f xs) = map f (remdups xs)"
  by (induction xs) (auto simp add: inj_eq)

lemma map_of_map_increment:
  "sorted_wrt (<) (map fst m) \<Longrightarrow>
   map_of (map_increment k m) =
     (map_of m)(k \<mapsto> (case map_of m k of None \<Rightarrow> 1 | Some v \<Rightarrow> v + 1))"
proof (induction k m rule: map_increment.induct)
  case (1 k)
  show ?case by simp
next
  case (2 k k' v m)
  show ?case
  proof (cases "k < k'")
    case True
    with 2(2) have "map_of m k = None"
      by (force simp add: map_of_eq_None_iff)
    with True show ?thesis by (auto simp add: fun_eq_iff)
  next
    case False
    with 2 show ?thesis by (auto simp add: fun_eq_iff)
  qed
qed

lemma fold_map_increment:
  "sorted_wrt (<) (map fst (fold map_increment ks [])) \<and>
   map_of (fold map_increment ks []) =
     (\<lambda>k. if k \<in> set ks then Some (int (count_list ks k)) else None)"
proof (induction ks rule: rev_induct)
  case Nil
  show ?case by simp
next
  case (snoc k ks)
  then show ?case
    by (auto simp add: map_increment_sorted map_of_map_increment fun_eq_iff)
qed

lemma counts_of_assoc:
  assumes "distinct (map fst m)"
    and "map_of m = (\<lambda>k. if k \<in> set ks then Some (f k) else None)"
  shows "mset (map snd m) = image_mset f (mset (remdups ks))"
proof -
  from assms(1) have dm: "distinct m" by (rule distinct_map [THEN iffD1, THEN conjunct1])
  have "set m = (\<lambda>k. (k, f k)) ` set ks"
  proof (rule set_eqI)
    fix e :: "'a \<times> 'b"
    have "e \<in> set m \<longleftrightarrow> map_of m (fst e) = Some (snd e)"
      using map_of_eq_Some_iff [OF assms(1), of "fst e" "snd e"] by simp
    also have "\<dots> \<longleftrightarrow> e \<in> (\<lambda>k. (k, f k)) ` set ks"
      by (cases e) (auto simp add: assms(2))
    finally show "e \<in> set m \<longleftrightarrow> e \<in> (\<lambda>k. (k, f k)) ` set ks" .
  qed
  then have "set m = set (map (\<lambda>k. (k, f k)) (remdups ks))" by simp
  moreover have "distinct (map (\<lambda>k. (k, f k)) (remdups ks))"
    by (simp add: distinct_map inj_on_def)
  ultimately have "mset m = mset (map (\<lambda>k. (k, f k)) (remdups ks))"
    using dm by (simp only: set_eq_iff_mset_eq_distinct)
  then have "mset (map snd m) = mset (map snd (map (\<lambda>k. (k, f k)) (remdups ks)))"
    by (simp only: mset_map)
  then show ?thesis by (simp add: comp_def)
qed

lemma count_per_color_counts:
  "mset (map snd (count_per_color (scan_block img x0 y0))) =
    mset (map (\<lambda>c. int (count_list (block_pixels img x0 y0) c))
           (remdups (block_pixels img x0 y0)))"
proof -
  let ?ps = "block_pixels img x0 y0"
  let ?ks = "map pack_rgb ?ps"
  from fold_map_increment [of ?ks]
  have sorted: "sorted_wrt (<) (map fst (fold map_increment ?ks []))"
    and lookup: "map_of (fold map_increment ?ks []) =
      (\<lambda>k. if k \<in> set ?ks then Some (int (count_list ?ks k)) else None)"
    by blast+
  from sorted have "distinct (map fst (fold map_increment ?ks []))"
    by (simp add: strict_sorted_iff)
  from counts_of_assoc [OF this lookup]
  have "mset (map snd (count_per_color (scan_block img x0 y0))) =
      image_mset (\<lambda>k. int (count_list ?ks k)) (mset (remdups ?ks))"
    by (simp only: scan_block_count)
  also have "remdups ?ks = map pack_rgb (remdups ?ps)"
    by (rule remdups_map_inj) (rule inj_pack_rgb)
  also have "image_mset (\<lambda>k. int (count_list ?ks k)) (mset (map pack_rgb (remdups ?ps))) =
      mset (map (\<lambda>c. int (count_list ?ps c)) (remdups ?ps))"
    by (simp add: count_list_map_conv [OF inj_pack_rgb] multiset.map_comp comp_def)
  finally show ?thesis .
qed

lemma mset_multimap_insert: "mset (multimap_insert e m) = add_mset e (mset m)"
  by (induction m) auto

lemma set_multimap_insert: "set (multimap_insert e m) = insert e (set m)"
  by (induction m) auto

lemma sorted_multimap_insert:
  "sorted (map fst m) \<Longrightarrow> sorted (map fst (multimap_insert e m))"
  by (induction m) (auto simp add: set_multimap_insert)

lemma fold_multimap_insert:
  "sorted (map fst acc) \<Longrightarrow>
   sorted (map fst (fold (\<lambda>(color, n) cpc. multimap_insert (n, color) cpc) m acc)) \<and>
   mset (map fst (fold (\<lambda>(color, n) cpc. multimap_insert (n, color) cpc) m acc)) =
     mset (map snd m) + mset (map fst acc)"
proof (induction m arbitrary: acc)
  case Nil
  then show ?case by simp
next
  case (Cons e m)
  obtain color n where e: "e = (color, n)" by (cases e)
  from Cons.IH [OF sorted_multimap_insert [OF Cons.prems, of "(n, color)"]]
  show ?case by (simp add: e mset_multimap_insert)
qed

lemma color_per_count_sorted: "map fst (color_per_count_of m) = sort (map snd m)"
proof -
  from fold_multimap_insert [of "[]" m]
  have s: "sorted (map fst (color_per_count_of m))"
    and m: "mset (map fst (color_per_count_of m)) = mset (map snd m)"
    by (simp_all add: color_per_count_of_def)
  show ?thesis by (rule properties_for_sort [OF m s, symmetric])
qed

lemma sort_cong_mset: "mset xs = mset ys \<Longrightarrow> sort xs = sort ys"
  by (rule properties_for_sort) simp_all

lemma top_two_count2:
  "top_two cpc = Some t \<Longrightarrow> count2 t = sum_list (take 2 (rev (map fst cpc)))"
  by (cases "rev cpc")
    (auto simp add: top_two_def rev_map [symmetric] numeral_2_eq_2 split: list.splits)

lemma block_frequencies:
  "rev (map fst (color_per_count_of (count_per_color (scan_block img x0 y0)))) =
    frequencies img x0 y0"
  by (simp only: color_per_count_sorted frequencies_def Let_def
      sort_cong_mset [OF count_per_color_counts])

lemma block_top_coverage:
  "block_top img x0 y0 = Some t \<Longrightarrow> count2 t = top_two_coverage img x0 y0"
  by (simp add: block_top_def top_two_count2 block_frequencies top_two_coverage_def)

lemma is_direct_iff: "is_direct t \<longleftrightarrow> 16 < count2 t"
  by (simp add: is_direct_def c_div_def)

section \<open>Bounds of \<open>best_index\<close> and \<open>clamp_byte\<close>\<close>

lemma best_index_fold_range:
  "fst (fold (best_index_step v STEPS) ks (r, d)) \<in> insert r (set ks)"
proof (induction ks arbitrary: r d)
  case Nil
  show ?case by simp
next
  case (Cons k ks)
  show ?case
  proof (cases "\<bar>STEPS ! k - v\<bar> < d")
    case True
    with Cons [of k "\<bar>STEPS ! k - v\<bar>"] show ?thesis
      by (auto simp add: best_index_step_def Let_def)
  next
    case False
    with Cons [of r d] show ?thesis
      by (auto simp add: best_index_step_def Let_def)
  qed
qed

lemma best_index_less: "0 < n \<Longrightarrow> best_index v STEPS n < n"
  using best_index_fold_range [of v STEPS "[1..<n]" 0 "\<bar>STEPS ! 0 - v\<bar>"]
  by (auto simp add: best_index_def)

lemma clamp_byte_range: "0 \<le> clamp_byte v \<and> clamp_byte v \<le> 255"
  by (simp add: clamp_byte_def)

section \<open>Claims about the glyph search\<close>

text \<open>
  Claim C1 as stated fails. A block of horizontal stripes two rows high gives the
  mask 0x00ff00ff; no entry is closer to it than 8 bits, so the search keeps the
  fallback 0x2584 with pattern 0x0000ffff, at distance 16, although the entry
  (0x000000ff, 0x2582) of the active range is at distance 8.
\<close>

theorem best_match_counterexample:
  "block_top striped_block 0 0 =
     Some \<lparr>count2 = 32, max_count_color_1 = 0xffffff, max_count_color_2 = 0x000000\<rparr> \<and>
   block_bits striped_block 0 0
     \<lparr>count2 = 32, max_count_color_1 = 0xffffff, max_count_color_2 = 0x000000\<rparr> =
     0x00ff00ff \<and>
   find_glyph 0x00ff00ff 0 =
     Some \<lparr>best_diff = 8, best_pattern = 0x0000ffff, codepoint = 0x2584, inverted = False\<rparr> \<and>
   (0x000000ff, 0x2582) \<in> set (active_entries 0) \<and>
   entry_distance 0x00ff00ff 0x000000ff < entry_distance 0x00ff00ff 0x0000ffff"
  by code_simp

text \<open>
  Claim C1, amended. When some non-sentinel entry of the active range is closer than
  8 bits to the mask or to its complement, the search selects an entry of the active
  range whose distance to the mask (the smaller of the distances to the mask and to
  its complement) is less than or equal to that of every non-sentinel entry of the
  active range.
\<close>

theorem best_match_optimal_below_threshold:
  assumes "e0 \<in> set (active_entries flags)" and "entry_distance bits (fst e0) < 8"
  shows "\<exists>r cp. find_glyph bits flags = Some r \<and>
           (best_pattern r, cp) \<in> set (active_entries flags) \<and> codepoint r = uint cp \<and>
           (\<forall>e\<in>set (active_entries flags).
              entry_distance bits (best_pattern r) \<le> entry_distance bits (fst e))"
proof -
  let ?r = "fold (match_step bits) (active_entries flags) initial_best"
  have bound: "\<forall>e\<in>set (active_entries flags). best_diff ?r \<le> entry_distance bits (fst e)"
    using fold_match_best_diff [of bits "active_entries flags" initial_best] by blast
  with assms have "best_diff ?r < 8" by fastforce
  then have "?r \<noteq> initial_best" by (auto simp add: initial_best_def)
  with fold_match_cases [of bits "active_entries flags" initial_best]
  obtain e where e: "e \<in> set (active_entries flags)" and rec: "records bits ?r e"
    by blast
  from rec have pat: "best_pattern ?r = fst e" and cp: "codepoint ?r = uint (snd e)"
    by (simp_all add: records_def)
  from records_distance [OF rec] bound pat
  have "\<forall>e'\<in>set (active_entries flags).
      entry_distance bits (best_pattern ?r) \<le> entry_distance bits (fst e')"
    by fastforce
  moreover from e pat have "(best_pattern ?r, snd e) \<in> set (active_entries flags)"
    by simp
  ultimately show ?thesis using cp by (auto simp add: find_glyph_fold)
qed

text \<open>
  The mask 0xccc00000 is 2 bits away from the upper left quadrant.
\<close>

theorem best_match_optimal_below_threshold_witness:
  "(0xcccc0000, 0x2598) \<in> set (active_entries 0) \<and>
   entry_distance 0xccc00000 (fst (0xcccc0000 :: u32, 0x2598 :: u32)) < 8 \<and>
   (\<exists>r cp. find_glyph 0xccc00000 0 = Some r \<and>
      (best_pattern r, cp) \<in> set (active_entries 0) \<and> codepoint r = uint cp \<and>
      (\<forall>e\<in>set (active_entries 0).
         entry_distance 0xccc00000 (best_pattern r) \<le> entry_distance 0xccc00000 (fst e)))"
proof -
  have a: "(0xcccc0000, 0x2598) \<in> set (active_entries 0)" by code_simp
  have b: "entry_distance 0xccc00000 (fst (0xcccc0000 :: u32, 0x2598 :: u32)) < 8"
    by code_simp
  from a b best_match_optimal_below_threshold [OF a b] show ?thesis by blast
qed

text \<open>
  Claim C2 as stated fails. The fading block is in split mode and its mask is
  0xffff0000. The winning comparison is the one with the complement of the pattern
  0x0000ffff of the lower half block (distance 0; the pattern itself is at distance
  32). The search sets \<open>inverted\<close> but records the pattern 0x0000ffff of the
  dictionary, not the complemented pattern 0xffff0000 that was compared, and
  \<open>createCharData\<close> partitions the pixels with 0x0000ffff: the foreground is the
  average of the lower half of the block. With the complemented pattern the two
  colours would change places.
\<close>

theorem complement_match_counterexample:
  "block_top fading_block 0 0 =
     Some \<lparr>count2 = 2, max_count_color_1 = 0xfafbfc, max_count_color_2 = 0xf2f3f4\<rparr> \<and>
   \<not> is_direct \<lparr>count2 = 2, max_count_color_1 = 0xfafbfc, max_count_color_2 = 0xf2f3f4\<rparr> \<and>
   block_bits fading_block 0 0
     \<lparr>count2 = 2, max_count_color_1 = 0xfafbfc, max_count_color_2 = 0xf2f3f4\<rparr> =
     0xffff0000 \<and>
   (0x0000ffff, 0x2584) \<in> set (active_entries 0) \<and>
   hamming (NOT 0x0000ffff) 0xffff0000 = 0 \<and>
   hamming 0x0000ffff 0xffff0000 = 32 \<and>
   find_glyph 0xffff0000 0 =
     Some \<lparr>best_diff = 0, best_pattern = 0x0000ffff, codepoint = 0x2584, inverted = True\<rparr> \<and>
   NOT 0x0000ffff \<noteq> (0x0000ffff :: u32) \<and>
   findCharData fading_block 0 0 0 =
     Some (createCharData fading_block 0 0 0x2584 0x0000ffff) \<and>
   createCharData fading_block 0 0 0x2584 0x0000ffff =
     \<lparr>fgColor = [62, 63, 64], bgColor = [190, 191, 192], codePoint = 0x2584\<rparr> \<and>
   createCharData fading_block 0 0 0x2584 (NOT 0x0000ffff) =
     \<lparr>fgColor = [190, 191, 192], bgColor = [62, 63, 64], codePoint = 0x2584\<rparr>"
  by code_simp

text \<open>
  Claim C2, amended. The search returns its initial fallback or records an entry of
  the active range: the pattern recorded is the pattern of that entry as it stands
  in the dictionary, whichever of the two comparisons won; \<open>best_diff\<close> is the
  distance of the winning comparison, and \<open>inverted\<close> is set exactly when that
  comparison used the complement of the pattern. In split mode \<open>createCharData\<close>
  partitions the pixels with the recorded pattern.
\<close>

theorem recorded_pattern_is_dictionary_pattern:
  "(\<exists>r. find_glyph bits flags = Some r \<and>
      (r = initial_best \<or>
       (\<exists>e\<in>set (active_entries flags).
          best_pattern r = fst e \<and> codepoint r = uint (snd e) \<and>
          best_diff r = hamming (if inverted r then NOT (fst e) else fst e) bits \<and>
          inverted r = (hamming (NOT (fst e)) bits < hamming (fst e) bits)))) \<and>
   (block_top img x0 y0 = Some t \<and> \<not> is_direct t \<longrightarrow>
      (\<exists>r. find_glyph (block_bits img x0 y0 t) flags = Some r \<and>
         findCharData img x0 y0 flags =
           Some (createCharData img x0 y0 (codepoint r) (best_pattern r))))"
proof (intro conjI impI)
  from find_glyph_cases [of bits flags]
  show "\<exists>r. find_glyph bits flags = Some r \<and>
      (r = initial_best \<or>
       (\<exists>e\<in>set (active_entries flags).
          best_pattern r = fst e \<and> codepoint r = uint (snd e) \<and>
          best_diff r = hamming (if inverted r then NOT (fst e) else fst e) bits \<and>
          inverted r = (hamming (NOT (fst e)) bits < hamming (fst e) bits)))"
  proof
    assume "find_glyph bits flags = Some initial_best"
    then show ?thesis by simp
  next
    assume "\<exists>r. find_glyph bits flags = Some r \<and> best_diff r < 8 \<and>
      (\<exists>e\<in>set (active_entries flags). records bits r e)"
    then obtain r e where r: "find_glyph bits flags = Some r" and near: "best_diff r < 8"
      and e: "e \<in> set (active_entries flags)" and rec: "records bits r e"
      by blast
    from rec have "best_pattern r = fst e" "codepoint r = uint (snd e)"
      "best_diff r = hamming (if inverted r then NOT (fst e) else fst e) bits"
      by (simp_all add: records_def)
    with records_polarity [OF rec near] r e show ?thesis by blast
  qed
next
  assume "block_top img x0 y0 = Some t \<and> \<not> is_direct t"
  then show "\<exists>r. find_glyph (block_bits img x0 y0 t) flags = Some r \<and>
      findCharData img x0 y0 flags =
        Some (createCharData img x0 y0 (codepoint r) (best_pattern r))"
    by (auto intro: findCharData_split)
qed

text \<open>
  The fading block is in split mode; its mask 0xffff0000 is the complement of the
  lower half block.
\<close>

theorem recorded_pattern_is_dictionary_pattern_witness:
  "block_top fading_block 0 0 =
     Some \<lparr>count2 = 2, max_count_color_1 = 0xfafbfc, max_count_color_2 = 0xf2f3f4\<rparr> \<and>
   \<not> is_direct \<lparr>count2 = 2, max_count_color_1 = 0xfafbfc, max_count_color_2 = 0xf2f3f4\<rparr> \<and>
   block_bits fading_block 0 0
     \<lparr>count2 = 2, max_count_color_1 = 0xfafbfc, max_count_color_2 = 0xf2f3f4\<rparr> = 0xffff0000 \<and>
   find_glyph 0xffff0000 0 =
     Some \<lparr>best_diff = 0, best_pattern = 0x0000ffff, codepoint = 0x2584, inverted = True\<rparr> \<and>
   (\<exists>r. find_glyph (block_bits fading_block 0 0
            \<lparr>count2 = 2, max_count_color_1 = 0xfafbfc, max_count_color_2 = 0xf2f3f4\<rparr>) 0 =
          Some r \<and>
      findCharData fading_block 0 0 0 =
        Some (createCharData fading_block 0 0 (codepoint r) (best_pattern r)))"
proof -
  let ?t = "\<lparr>count2 = 2, max_count_color_1 = 0xfafbfc, max_count_color_2 = 0xf2f3f4\<rparr>"
  have top: "block_top fading_block 0 0 = Some ?t" by code_simp
  have split: "\<not> is_direct ?t" by code_simp
  have bits: "block_bits fading_block 0 0 ?t = 0xffff0000" by code_simp
  have glyph: "find_glyph 0xffff0000 0 =
      Some \<lparr>best_diff = 0, best_pattern = 0x0000ffff, codepoint = 0x2584, inverted = True\<rparr>"
    by code_simp
  from top split bits glyph
    recorded_pattern_is_dictionary_pattern [of _ 0 fading_block 0 0 ?t]
  show ?thesis by blast
qed

text \<open>
  Claim C6. With the teletext flag clear the search returns a result, and its code
  point is none of the code points of the extended range.
\<close>

theorem extended_glyphs_excluded:
  assumes "flags AND FLAG_TELETEXT = 0"
  shows "\<exists>r. find_glyph bits flags = Some r \<and>
           codepoint r \<notin> (\<lambda>e. uint (snd e)) ` set extended_entries"
proof -
  from find_glyph_cases [of bits flags] show ?thesis
  proof
    assume "find_glyph bits flags = Some initial_best"
    with fallback_not_extended show ?thesis by (simp add: initial_best_def)
  next
    assume "\<exists>r. find_glyph bits flags = Some r \<and> best_diff r < 8 \<and>
      (\<exists>e\<in>set (active_entries flags). records bits r e)"
    then obtain r e where r: "find_glyph bits flags = Some r"
      and e: "e \<in> set (active_entries flags)" and rec: "records bits r e"
      by blast
    from e active_entries_standard [OF assms] have "e \<in> set (active_entries 0)"
      by simp
    with standard_not_extended
    have "uint (snd e) \<notin> (\<lambda>e. uint (snd e)) ` set extended_entries"
      by blast
    moreover from rec have "codepoint r = uint (snd e)"
      by (simp add: records_def)
    ultimately have "codepoint r \<notin> (\<lambda>e. uint (snd e)) ` set extended_entries"
      by simp
    with r show ?thesis by blast
  qed
qed

text \<open>
  The mask 0xccc00000 is the pattern of the extended entry 0xfb00, which the search
  returns with the teletext flag set; with the flag clear it returns the upper left
  quadrant, 2 bits away.
\<close>

theorem extended_glyphs_excluded_witness:
  "(0 :: 8 word) AND FLAG_TELETEXT = 0 \<and>
   (0xccc00000, 0xfb00) \<in> set extended_entries \<and>
   find_glyph 0xccc00000 32 =
     Some \<lparr>best_diff = 0, best_pattern = 0xccc00000, codepoint = 0xfb00, inverted = False\<rparr> \<and>
   find_glyph 0xccc00000 0 =
     Some \<lparr>best_diff = 2, best_pattern = 0xcccc0000, codepoint = 0x2598, inverted = False\<rparr> \<and>
   (\<exists>r. find_glyph 0xccc00000 0 = Some r \<and>
      codepoint r \<notin> (\<lambda>e. uint (snd e)) ` set extended_entries)"
proof -
  have off: "(0 :: 8 word) AND FLAG_TELETEXT = 0" by simp
  have ext: "(0xccc00000, 0xfb00) \<in> set extended_entries" by code_simp
  have tele: "find_glyph 0xccc00000 32 =
     Some \<lparr>best_diff = 0, best_pattern = 0xccc00000, codepoint = 0xfb00, inverted = False\<rparr>"
    by code_simp
  have std: "find_glyph 0xccc00000 0 =
     Some \<lparr>best_diff = 2, best_pattern = 0xcccc0000, codepoint = 0x2598, inverted = False\<rparr>"
    by code_simp
  from off ext tele std extended_glyphs_excluded [OF off, of "0xccc00000"]
  show ?thesis by blast
qed

text \<open>
  Claim C8. For every mask and every flag setting the search returns a result whose
  code point is at least 32, and so does \<open>findCharData\<close> for every block: neither
  undefined case of the model (an empty multimap, a search that runs off the
  dictionary) arises.
\<close>

theorem glyph_never_sentinel:
  "(\<exists>r. find_glyph bits flags = Some r \<and> 32 \<le> codepoint r) \<and>
   (\<exists>cd. findCharData img x0 y0 flags = Some cd \<and> 32 \<le> codePoint cd)"
proof
  show "\<exists>r. find_glyph bits flags = Some r \<and> 32 \<le> codepoint r"
    by (rule find_glyph_codepoint)
  from block_top_Some obtain t where t: "block_top img x0 y0 = Some t" by blast
  from find_glyph_codepoint obtain g
    where g: "find_glyph (block_bits img x0 y0 t) flags = Some g" and cp: "32 \<le> codepoint g"
    by blast
  show "\<exists>cd. findCharData img x0 y0 flags = Some cd \<and> 32 \<le> codePoint cd"
    using t g cp
    by (simp add: findCharData_def codePoint_createCharData codePoint_direct_result)
qed

text \<open>
  Claim C10. When every non-sentinel entry of the active range differs from the mask
  in at least 8 bits, and from the complement of the mask in at least 8 bits, the
  search returns the fallback it starts with: code point 0x2584, pattern 0x0000ffff,
  \<open>inverted\<close> false (and \<open>best_diff\<close> still 8).
\<close>

theorem fallback_when_no_near_match:
  assumes "\<forall>e\<in>set (active_entries flags).
             8 \<le> hamming (fst e) bits \<and> 8 \<le> hamming (fst e) (NOT bits)"
  shows "find_glyph bits flags =
           Some \<lparr>best_diff = 8, best_pattern = 0x0000ffff, codepoint = 0x2584,
                 inverted = False\<rparr>"
proof -
  from assms have "\<forall>e\<in>set (active_entries flags).
      best_diff initial_best \<le> entry_distance bits (fst e)"
    by (simp add: initial_best_def entry_distance_def)
  then have "fold (match_step bits) (active_entries flags) initial_best = initial_best"
    by (rule fold_match_unchanged)
  then show ?thesis by (simp add: find_glyph_fold initial_best_def)
qed

text \<open>
  The mask 0x0f0f0f0f is at least 8 bits away from every entry, teletext entries
  included.
\<close>

theorem fallback_when_no_near_match_witness:
  "list_all (\<lambda>e. 8 \<le> hamming (fst e) 0x0f0f0f0f \<and> 8 \<le> hamming (fst e) (NOT 0x0f0f0f0f))
     (active_entries 32) \<and>
   find_glyph 0x0f0f0f0f 32 =
     Some \<lparr>best_diff = 8, best_pattern = 0x0000ffff, codepoint = 0x2584, inverted = False\<rparr>"
proof -
  have far: "list_all
      (\<lambda>e. 8 \<le> hamming (fst e) 0x0f0f0f0f \<and> 8 \<le> hamming (fst e) (NOT 0x0f0f0f0f))
      (active_entries 32)"
    by code_simp
  then have "\<forall>e\<in>set (active_entries 32).
      8 \<le> hamming (fst e) 0x0f0f0f0f \<and> 8 \<le> hamming (fst e) (NOT 0x0f0f0f0f)"
    by (simp only: list_all_iff)
  from far fallback_when_no_near_match [OF this] show ?thesis by (rule conjI)
qed

section \<open>Claims about the analysis of a block\<close>

text \<open>
  Claim C3. For every block, \<open>count2\<close> is the frequency of the most frequent exact
  (R, G, B) colour plus that of the second most frequent distinct colour when there is
  one (the first two of the frequencies of the distinct colours in descending order),
  and direct mode is chosen exactly when \<open>count2\<close> is greater than 16: the mask
  and the result of \<open>findCharData\<close> are those of direct mode then, and those of
  split mode otherwise.
\<close>

theorem direct_mode_threshold:
  "\<exists>t g. block_top img x0 y0 = Some t \<and>
     count2 t = top_two_coverage img x0 y0 \<and>
     is_direct t = (16 < top_two_coverage img x0 y0) \<and>
     block_bits img x0 y0 t =
       (if 16 < top_two_coverage img x0 y0 then direct_bits img x0 y0 t
        else split_bits img x0 y0 (scan_block img x0 y0)) \<and>
     find_glyph (block_bits img x0 y0 t) flags = Some g \<and>
     findCharData img x0 y0 flags =
       Some (if 16 < top_two_coverage img x0 y0 then direct_result g t
             else createCharData img x0 y0 (codepoint g) (best_pattern g))"
proof -
  from block_top_Some obtain t where t: "block_top img x0 y0 = Some t" by blast
  from find_glyph_codepoint obtain g
    where g: "find_glyph (block_bits img x0 y0 t) flags = Some g" by blast
  from block_top_coverage [OF t] have c: "count2 t = top_two_coverage img x0 y0" .
  then have d: "is_direct t = (16 < top_two_coverage img x0 y0)"
    by (simp add: is_direct_iff)
  from t g c d show ?thesis
    by (simp add: findCharData_def block_bits_def)
qed

text \<open>
  At the threshold: 15 white pixels and 17 distinct greys cover 16 pixels with the
  two most frequent colours, split mode; 16 white pixels and 16 greys cover 17,
  direct mode.
\<close>

theorem direct_mode_threshold_witness:
  "top_two_coverage (two_tone_block 15) 0 0 = 16 \<and>
   (\<exists>t. block_top (two_tone_block 15) 0 0 = Some t \<and> \<not> is_direct t) \<and>
   top_two_coverage (two_tone_block 16) 0 0 = 17 \<and>
   (\<exists>t. block_top (two_tone_block 16) 0 0 = Some t \<and> is_direct t)"
proof -
  have split: "top_two_coverage (two_tone_block 15) 0 0 = 16" by code_simp
  have direct: "top_two_coverage (two_tone_block 16) 0 0 = 17" by code_simp
  from direct_mode_threshold [of "two_tone_block 15" 0 0 0]
  have "\<exists>t. block_top (two_tone_block 15) 0 0 = Some t \<and> \<not> is_direct t"
    by (auto simp add: split)
  moreover from direct_mode_threshold [of "two_tone_block 16" 0 0 0]
  have "\<exists>t. block_top (two_tone_block 16) 0 0 = Some t \<and> is_direct t"
    by (auto simp add: direct)
  ultimately show ?thesis using split direct by simp
qed

text \<open>
  Claim C4. In a block in split mode the channel \<open>ch\<close> that the analyser picks has
  the largest range (greatest minus least value over the 32 pixels) of the three
  channels, and is the first channel with that range; the threshold is the least
  value of the channel plus half its range, rounded down; and for every \<open>k < 32\<close>
  bit \<open>31 - k\<close> of the mask, counted from the least significant bit, is set exactly
  when the value of pixel \<open>k\<close> (in row-major order) on the channel is greater than
  the threshold.
\<close>

theorem split_mode_mask:
  assumes "block_top img x0 y0 = Some t" and "\<not> is_direct t"
  shows "\<exists>ch<3.
      ch = fst (choose_split (min_ch (scan_block img x0 y0)) (max_ch (scan_block img x0 y0))) \<and>
      (\<forall>i<3. channel_range img x0 y0 i \<le> channel_range img x0 y0 ch) \<and>
      (\<forall>i<ch. channel_range img x0 y0 i < channel_range img x0 y0 ch) \<and>
      split_value (min_ch (scan_block img x0 y0)) (max_ch (scan_block img x0 y0)) =
        channel_min img x0 y0 ch + channel_range img x0 y0 ch div 2 \<and>
      (\<forall>k<32. bit (block_bits img x0 y0 t) (31 - k) =
         (channel_min img x0 y0 ch + channel_range img x0 y0 ch div 2 <
            pixel_at img x0 y0 k ch))"
proof -
  let ?s = "scan_block img x0 y0"
  let ?si = "fst (choose_split (min_ch ?s) (max_ch ?s))"
  from assms(2) have bits: "block_bits img x0 y0 t = split_bits img x0 y0 ?s"
    by (simp add: block_bits_def)
  from choose_split_block [of img x0 y0]
  have si: "?si < 3"
    and largest: "\<forall>i<3. channel_range img x0 y0 i \<le> channel_range img x0 y0 ?si"
    and first: "\<forall>i<?si. channel_range img x0 y0 i < channel_range img x0 y0 ?si"
    and sv: "split_value (min_ch ?s) (max_ch ?s) =
      channel_min img x0 y0 ?si + channel_range img x0 y0 ?si div 2"
    by blast+
  have "\<forall>k<32. bit (block_bits img x0 y0 t) (31 - k) =
      (channel_min img x0 y0 ?si + channel_range img x0 y0 ?si div 2 <
         pixel_at img x0 y0 k ?si)"
    by (simp add: bits split_bits_bit sv)
  with si largest first sv show ?thesis by blast
qed

text \<open>
  The gradient block is in split mode, with the lower half above the threshold.
\<close>

theorem split_mode_mask_witness:
  "block_top gradient_block 0 0 =
     Some \<lparr>count2 = 2, max_count_color_1 = 0xf8f9fa, max_count_color_2 = 0xf0f1f2\<rparr> \<and>
   \<not> is_direct \<lparr>count2 = 2, max_count_color_1 = 0xf8f9fa, max_count_color_2 = 0xf0f1f2\<rparr> \<and>
   block_bits gradient_block 0 0
     \<lparr>count2 = 2, max_count_color_1 = 0xf8f9fa, max_count_color_2 = 0xf0f1f2\<rparr> = 0x0000ffff \<and>
   (\<exists>ch<3.
      ch = fst (choose_split (min_ch (scan_block gradient_block 0 0))
                 (max_ch (scan_block gradient_block 0 0))) \<and>
      (\<forall>i<3. channel_range gradient_block 0 0 i \<le> channel_range gradient_block 0 0 ch) \<and>
      (\<forall>i<ch. channel_range gradient_block 0 0 i < channel_range gradient_block 0 0 ch) \<and>
      split_value (min_ch (scan_block gradient_block 0 0))
          (max_ch (scan_block gradient_block 0 0)) =
        channel_min gradient_block 0 0 ch + channel_range gradient_block 0 0 ch div 2 \<and>
      (\<forall>k<32. bit (block_bits gradient_block 0 0
            \<lparr>count2 = 2, max_count_color_1 = 0xf8f9fa, max_count_color_2 = 0xf0f1f2\<rparr>)
            (31 - k) =
         (channel_min gradient_block 0 0 ch + channel_range gradient_block 0 0 ch div 2 <
            pixel_at gradient_block 0 0 k ch)))"
proof -
  let ?t = "\<lparr>count2 = 2, max_count_color_1 = 0xf8f9fa, max_count_color_2 = 0xf0f1f2\<rparr>"
  have top: "block_top gradient_block 0 0 = Some ?t" by code_simp
  have split: "\<not> is_direct ?t" by code_simp
  have bits: "block_bits gradient_block 0 0 ?t = 0x0000ffff" by code_simp
  from top split bits split_mode_mask [OF top split] show ?thesis by (intro conjI)
qed

text \<open>
  Claim C9. When all 32 pixels of a block are (10, 20, 30), the multimap holds the
  single pair of count 32 and colour 0x0a141e, so that \<open>count2 = 32\<close> and both
  colours are 0x0a141e, that is (10, 20, 30); the block is in direct mode, and the
  result has foreground and background (10, 20, 30) under every flag setting.
\<close>

theorem flat_block_direct:
  assumes "\<forall>k<32. pixel_rgb img x0 y0 k = (10, 20, 30)"
  shows "color_per_count_of (count_per_color (scan_block img x0 y0)) = [(32, 0x0a141e)] \<and>
    block_top img x0 y0 =
      Some \<lparr>count2 = 32, max_count_color_1 = 0x0a141e, max_count_color_2 = 0x0a141e\<rparr> \<and>
    is_direct \<lparr>count2 = 32, max_count_color_1 = 0x0a141e, max_count_color_2 = 0x0a141e\<rparr> \<and>
    map (channel_of 0x0a141e) [0..<3] = [10, 20, 30] \<and>
    (\<exists>cp. findCharData img x0 y0 flags =
       Some \<lparr>fgColor = [10, 20, 30], bgColor = [10, 20, 30], codePoint = cp\<rparr>)"
proof -
  let ?t = "\<lparr>count2 = 32, max_count_color_1 = 0x0a141e, max_count_color_2 = 0x0a141e\<rparr>"
  have "\<forall>k<32. pixel_rgb flat_block 0 0 k = (10, 20, 30)"
    by (simp add: pixel_rgb_def flat_block_def)
  with assms have same: "same_block img x0 y0 flat_block 0 0"
    by (simp add: same_block_def)
  have scan: "color_per_count_of (count_per_color (scan_block flat_block 0 0)) =
      [(32, 0x0a141e)]"
    by code_simp
  have top: "block_top flat_block 0 0 = Some ?t" by code_simp
  have direct: "is_direct ?t" by code_simp
  have channels: "map (channel_of 0x0a141e) [0..<3] = [10, 20, 30]" by code_simp
  have bits: "block_bits flat_block 0 0 ?t = 0" by code_simp
  have result: "direct_result
      \<lparr>best_diff = 0, best_pattern = 0, codepoint = 0x00a0, inverted = False\<rparr> ?t =
      \<lparr>fgColor = [10, 20, 30], bgColor = [10, 20, 30], codePoint = 0x00a0\<rparr>"
    by code_simp
  from top direct bits result
  have "findCharData flat_block 0 0 flags =
      Some \<lparr>fgColor = [10, 20, 30], bgColor = [10, 20, 30], codePoint = 0x00a0\<rparr>"
    by (simp add: findCharData_def find_glyph_zero)
  with scan top direct channels show ?thesis
    by (simp add: findCharData_cong [OF same] block_top_def scan_block_cong [OF same])
qed

text \<open>
  The block at (4, 8) of the flat image, with the teletext glyphs enabled.
\<close>

theorem flat_block_direct_witness:
  "list_all (\<lambda>k. pixel_rgb flat_block 4 8 k = (10, 20, 30)) [0..<32] \<and>
   block_top flat_block 4 8 =
     Some \<lparr>count2 = 32, max_count_color_1 = 0x0a141e, max_count_color_2 = 0x0a141e\<rparr> \<and>
   (\<exists>cp. findCharData flat_block 4 8 32 =
      Some \<lparr>fgColor = [10, 20, 30], bgColor = [10, 20, 30], codePoint = cp\<rparr>)"
proof -
  have flat: "list_all (\<lambda>k. pixel_rgb flat_block 4 8 k = (10, 20, 30)) [0..<32]"
    by code_simp
  then have "\<forall>k<32. pixel_rgb flat_block 4 8 k = (10, 20, 30)"
    by (simp add: list_all_iff)
  from flat flat_block_direct [OF this, of 32] show ?thesis by blast
qed

section \<open>Claims about colour finalisation\<close>

text \<open>
  Claim C7. For every block, code point and pattern, the foreground colour that
  \<open>createCharData\<close> returns is (0, 0, 0) when no pixel of the block is in the
  foreground bucket of the pattern, and otherwise, channel by channel, the sum of the
  pixels of the bucket divided by their number, rounded down; likewise for the
  background colour and the background bucket.
\<close>

theorem bucket_colors:
  "fgColor (createCharData img x0 y0 cp pattern) =
     (if bucket pattern True = [] then [0, 0, 0]
      else map (\<lambda>i. (\<Sum>k\<leftarrow>bucket pattern True. pixel_at img x0 y0 k i) div
                     int (length (bucket pattern True))) [0..<3]) \<and>
   bgColor (createCharData img x0 y0 cp pattern) =
     (if bucket pattern False = [] then [0, 0, 0]
      else map (\<lambda>i. (\<Sum>k\<leftarrow>bucket pattern False. pixel_at img x0 y0 k i) div
                     int (length (bucket pattern False))) [0..<3])"
proof -
  let ?s = "\<lparr>fg_acc = bucket_sums img x0 y0 (filter (\<lambda>k. bit pattern (31 - k)) [0..<32]),
     bg_acc = bucket_sums img x0 y0 (filter (\<lambda>k. \<not> bit pattern (31 - k)) [0..<32]),
     fg_count = int (length (filter (\<lambda>k. bit pattern (31 - k)) [0..<32])),
     bg_count = int (length (filter (\<lambda>k. \<not> bit pattern (31 - k)) [0..<32])),
     mask = drop_bit 32 0x80000000\<rparr>"
  have loop: "fold (accumulate_pixel img x0 y0 pattern) block_coords
      \<lparr>fg_acc = [0, 0, 0], bg_acc = [0, 0, 0], fg_count = 0, bg_count = 0,
       mask = 0x80000000\<rparr> = ?s"
    unfolding block_coords_eq by (rule accumulate_pixels) simp
  have fg: "fg_acc (fold average_channel [0..<3] ?s) =
      map (bucket_average img x0 y0 (bucket pattern True)) [0..<3]"
    by (rule averaged_buckets(1)
        [where ks' = "filter (\<lambda>k. \<not> bit pattern (31 - k)) [0..<32]"])
      (simp_all add: bucket_def)
  have bg: "bg_acc (fold average_channel [0..<3] ?s) =
      map (bucket_average img x0 y0 (bucket pattern False)) [0..<3]"
    by (rule averaged_buckets(2)
        [where ks = "filter (\<lambda>k. bit pattern (31 - k)) [0..<32]"])
      (simp_all add: bucket_def)
  have avg: "map (bucket_average img x0 y0 ks) [0..<3] =
      (if ks = [] then [0, 0, 0]
       else map (\<lambda>i. (\<Sum>k\<leftarrow>ks. pixel_at img x0 y0 k i) div int (length ks)) [0..<3])"
    for ks
    by (simp add: bucket_average_def upt_3)
  show ?thesis
    by (simp only: createCharData_def Let_def loop fg bg CharData.simps avg)
qed

section \<open>Claims about colour quantisation\<close>

text \<open>
  Claim C5. In 256-colour mode the palette index is the cube candidate
  \<open>16 + 36 * ri + 6 * gi + bi\<close> with every step index in [0, 5], or the grayscale
  candidate \<open>232 + gri\<close> with \<open>gri\<close> in [0, 23], and lies in [16, 255] either way.
  In true-colour mode the three channel values are the clamped inputs and lie in
  [0, 255]. Both hold for every value of \<open>gray\<close> and every outcome of the error
  comparison.
\<close>

theorem palette_bounds:
  "(flags AND FLAG_MODE_256 \<noteq> 0 \<longrightarrow>
      (\<exists>sel ri gi bi gri. ri \<le> 5 \<and> gi \<le> 5 \<and> bi \<le> 5 \<and> gri \<le> 23 \<and>
         emitTermColor flags r g b gray cube_closer =
           Palette sel (if cube_closer then 16 + 36 * int ri + 6 * int gi + int bi
                        else 232 + int gri)) \<and>
      (\<exists>sel index. emitTermColor flags r g b gray cube_closer = Palette sel index \<and>
         16 \<le> index \<and> index \<le> 255)) \<and>
   (flags AND FLAG_MODE_256 = 0 \<longrightarrow>
      (\<exists>sel. emitTermColor flags r g b gray cube_closer =
         TrueColor sel (clamp_byte r) (clamp_byte g) (clamp_byte b)) \<and>
      (\<exists>sel r' g' b'. emitTermColor flags r g b gray cube_closer = TrueColor sel r' g' b' \<and>
         0 \<le> r' \<and> r' \<le> 255 \<and> 0 \<le> g' \<and> g' \<le> 255 \<and> 0 \<le> b' \<and> b' \<le> 255))"
proof -
  let ?ri = "best_index (clamp_byte r) COLOR_STEPS COLOR_STEP_COUNT"
  let ?gi = "best_index (clamp_byte g) COLOR_STEPS COLOR_STEP_COUNT"
  let ?bi = "best_index (clamp_byte b) COLOR_STEPS COLOR_STEP_COUNT"
  let ?gri = "best_index gray GRAYSCALE_STEPS GRAYSCALE_STEP_COUNT"
  have ri: "?ri \<le> 5" and gi: "?gi \<le> 5" and bi: "?bi \<le> 5"
    using best_index_less [of COLOR_STEP_COUNT _ COLOR_STEPS]
    by (simp_all add: COLOR_STEP_COUNT_def less_Suc_eq_le [symmetric])
  have gri: "?gri \<le> 23"
    using best_index_less [of GRAYSCALE_STEP_COUNT gray GRAYSCALE_STEPS]
    by (simp add: GRAYSCALE_STEP_COUNT_def)
  have palette: "emitTermColor flags r g b gray cube_closer =
      Palette (if flags AND FLAG_BG \<noteq> 0 then 48 else 38)
        (if cube_closer then 16 + 36 * int ?ri + 6 * int ?gi + int ?bi else 232 + int ?gri)"
    if "flags AND FLAG_MODE_256 \<noteq> 0"
    using that by (simp add: emitTermColor_def Let_def)
  have true: "emitTermColor flags r g b gray cube_closer =
      TrueColor (if flags AND FLAG_BG \<noteq> 0 then 48 else 38)
        (clamp_byte r) (clamp_byte g) (clamp_byte b)"
    if "flags AND FLAG_MODE_256 = 0"
    using that by (simp add: emitTermColor_def Let_def)
  have index: "16 \<le> (if cube_closer then 16 + 36 * int ?ri + 6 * int ?gi + int ?bi
      else 232 + int ?gri) \<and>
    (if cube_closer then 16 + 36 * int ?ri + 6 * int ?gi + int ?bi else 232 + int ?gri)
      \<le> 255"
    using ri gi bi gri by auto
  show ?thesis
  proof (intro conjI impI)
    assume m: "flags AND FLAG_MODE_256 \<noteq> 0"
    from palette [OF m] ri gi bi gri
    show "\<exists>sel ri gi bi gri. ri \<le> 5 \<and> gi \<le> 5 \<and> bi \<le> 5 \<and> gri \<le> 23 \<and>
         emitTermColor flags r g b gray cube_closer =
           Palette sel (if cube_closer then 16 + 36 * int ri + 6 * int gi + int bi
                        else 232 + int gri)"
      by blast
    from palette [OF m] index
    show "\<exists>sel index. emitTermColor flags r g b gray cube_closer = Palette sel index \<and>
         16 \<le> index \<and> index \<le> 255"
      by blast
  next
    assume m: "flags AND FLAG_MODE_256 = 0"
    from true [OF m]
    show "\<exists>sel. emitTermColor flags r g b gray cube_closer =
         TrueColor sel (clamp_byte r) (clamp_byte g) (clamp_byte b)"
      by blast
    from true [OF m] clamp_byte_range [of r] clamp_byte_range [of g] clamp_byte_range [of b]
    show "\<exists>sel r' g' b'. emitTermColor flags r g b gray cube_closer = TrueColor sel r' g' b' \<and>
         0 \<le> r' \<and> r' \<le> 255 \<and> 0 \<le> g' \<and> g' \<le> 255 \<and> 0 \<le> b' \<and> b' \<le> 255"
      by blast
  qed
qed

text \<open>
  The colour (300, -5, 136) as a background in 256-colour mode and as a foreground
  in true-colour mode.
\<close>

theorem palette_bounds_witness:
  "(6 :: 8 word) AND FLAG_MODE_256 \<noteq> 0 \<and>
   emitTermColor 6 300 (- 5) 136 136 True = Palette 48 198 \<and>
   (\<exists>sel index. emitTermColor 6 300 (- 5) 136 136 True = Palette sel index \<and>
      16 \<le> index \<and> index \<le> 255) \<and>
   (1 :: 8 word) AND FLAG_MODE_256 = 0 \<and>
   emitTermColor 1 300 (- 5) 136 136 True = TrueColor 38 255 0 136 \<and>
   (\<exists>sel r' g' b'. emitTermColor 1 300 (- 5) 136 136 True = TrueColor sel r' g' b' \<and>
      0 \<le> r' \<and> r' \<le> 255 \<and> 0 \<le> g' \<and> g' \<le> 255 \<and> 0 \<le> b' \<and> b' \<le> 255)"
proof -
  have m: "(6 :: 8 word) AND FLAG_MODE_256 \<noteq> 0" by (simp add: FLAG_MODE_256_def)
  have t: "(1 :: 8 word) AND FLAG_MODE_256 = 0" by (simp add: FLAG_MODE_256_def)
  have e1: "emitTermColor 6 300 (- 5) 136 136 True = Palette 48 198" by code_simp
  have e2: "emitTermColor 1 300 (- 5) 136 136 True = TrueColor 38 255 0 136" by code_simp
  from m t e1 e2 palette_bounds [of 6 300 "- 5" 136 136 True]
    palette_bounds [of 1 300 "- 5" 136 136 True]
  show ?thesis by blast
qed

end
